theory Spec2Isabelle
  imports Main
begin

unbundle bit_operations_syntax

section \<open>Python values used by gen\_font.py\<close>

text \<open>
  Python integers are unbounded, so every number of the script is an \<open>int\<close>. The
  exceptions the modelled functions can raise are values of \<open>error\<close>; a function that
  can raise returns \<open>error + 'a\<close> with \<open>Inl\<close> for the exception.
\<close>

datatype error = AssertionError | ValueError | IndexError | ZeroDivisionError

text \<open>
  A slice bound of Python: a negative bound counts from the end, and every bound is
  clamped to the list.
\<close>

definition slice_index :: "nat \<Rightarrow> int \<Rightarrow> nat" where
  "slice_index n i = (if i < 0 then nat (int n + i) else min n (nat i))"

text \<open>\<^verbatim>\<open>xs[i:j]\<close>\<close>

definition py_slice :: "'a list \<Rightarrow> int \<Rightarrow> int \<Rightarrow> 'a list" where
  "py_slice xs i j =
     (let a = slice_index (length xs) i; b = slice_index (length xs) j
      in take (b - a) (drop a xs))"

text \<open>\<^verbatim>\<open>row[::2]\<close> and \<^verbatim>\<open>row[1::2]\<close>\<close>

fun evens :: "'a list \<Rightarrow> 'a list" where
  "evens [] = []"
| "evens [x] = [x]"
| "evens (x # y # xs) = x # evens xs"

fun odds :: "'a list \<Rightarrow> 'a list" where
  "odds [] = []"
| "odds [x] = []"
| "odds (x # y # xs) = y # odds xs"

text \<open>A list comprehension whose body can raise stops at the first exception.\<close>

fun traverse :: "('a \<Rightarrow> error + 'b) \<Rightarrow> 'a list \<Rightarrow> error + 'b list" where
  "traverse f [] = Inr []"
| "traverse f (x # xs) =
     (case f x of
        Inl e \<Rightarrow> Inl e
      | Inr y \<Rightarrow> (case traverse f xs of Inl e \<Rightarrow> Inl e | Inr ys \<Rightarrow> Inr (y # ys)))"

section \<open>process\_bitmap\_buffer\<close>

text \<open>
  The padding loop of the 1 and 2 bit branches: when the length is not a multiple of
  \<open>n\<close>, \<open>n - len(res) % n\<close> zero pixels are appended.
\<close>

definition pad_to :: "nat \<Rightarrow> int list \<Rightarrow> int list" where
  "pad_to n res =
     (if length res mod n \<noteq> 0 then res @ replicate (n - length res mod n) 0 else res)"

text \<open>\<^verbatim>\<open>[res[i : i + n] for i in range(0, len(res), n)]\<close>\<close>

definition chunks :: "nat \<Rightarrow> 'a list \<Rightarrow> 'a list list" where
  "chunks n res = map (\<lambda>k. take n (drop (k * n) res)) [0..<(length res + n - 1) div n]"

text \<open>
  The body of the 1 bit comprehension. The tuple pattern of the \<^verbatim>\<open>for\<close> raises
  ValueError on a chunk that does not have eight elements.
\<close>

fun pack1_byte :: "int list \<Rightarrow> error + int" where
  "pack1_byte [a, b, c, d, e, f, g, h] =
     Inr ((a AND 0x80)
          OR (drop_bit 1 (b AND 0x80))
          OR (drop_bit 2 (c AND 0x80))
          OR (drop_bit 3 (d AND 0x80))
          OR (drop_bit 4 (e AND 0x80))
          OR (drop_bit 5 (f AND 0x80))
          OR (drop_bit 6 (g AND 0x80))
          OR (drop_bit 7 (h AND 0x80)))"
| "pack1_byte _ = Inl ValueError"

fun pack2_byte :: "int list \<Rightarrow> error + int" where
  "pack2_byte [a, b, c, d] =
     Inr ((a AND 0xC0)
          OR (drop_bit 2 (b AND 0xC0))
          OR (drop_bit 4 (c AND 0xC0))
          OR (drop_bit 6 (d AND 0xC0)))"
| "pack2_byte _ = Inl ValueError"

text \<open>
  One turn of the 4 bit loop over the rows: the pairs of \<^verbatim>\<open>zip(row[::2], row[1::2])\<close>,
  then, for an odd width, \<^verbatim>\<open>row[-1] >> 4\<close>, which raises IndexError on an empty row.
\<close>

definition pack4_row :: "int list \<Rightarrow> int \<Rightarrow> error + int list" where
  "pack4_row row width =
     (let res = map (\<lambda>(a, b). (b AND 0xF0) OR (drop_bit 4 a)) (zip (evens row) (odds row))
      in if width AND 1 \<noteq> 0
         then (if row = [] then Inl IndexError else Inr (res @ [drop_bit 4 (last row)]))
         else Inr res)"

definition process_bitmap_buffer :: "int list \<Rightarrow> int \<Rightarrow> int \<Rightarrow> int \<Rightarrow> error + int list" where
  "process_bitmap_buffer buf bpp width height =
     (if bpp = 1 then traverse pack1_byte (chunks 8 (pad_to 8 buf))
      else if bpp = 2 then traverse pack2_byte (chunks 4 (pad_to 4 buf))
      else if bpp = 4 then
        (case traverse (\<lambda>y. pack4_row (py_slice buf (y * width) ((y + 1) * width)) width)
                [0..height - 1] of
           Inl e \<Rightarrow> Inl e
         | Inr rows \<Rightarrow> Inr (concat rows))
      else if bpp = 8 then Inr buf
      else Inl ValueError)"

section \<open>drop\_left\_columns\<close>

text \<open>
  The loop keeps \<^verbatim>\<open>buf[i]\<close> when \<^verbatim>\<open>i % width >= drop\<close>. A zero width raises
  ZeroDivisionError at the first index. Python's \<^verbatim>\<open>%\<close> takes the sign of the divisor, as
  \<open>mod\<close> on \<open>int\<close> does.
\<close>

definition drop_left_columns :: "int list \<Rightarrow> int \<Rightarrow> int \<Rightarrow> error + int list" where
  "drop_left_columns buf width ndrop =
     (if buf \<noteq> [] \<and> width = 0 then Inl ZeroDivisionError
      else Inr (map snd (filter (\<lambda>(i, x). int i mod width \<ge> ndrop) (zip [0..<length buf] buf))))"

section \<open>Glyph\<close>

text \<open>
  A Python string is the list of its code points. \<open>MODIFY_BEARING_X\<close> holds the NFKC
  forms of the listed characters; each of them is one code point, unchanged by NFKC.
\<close>

type_synonym str = "nat list"

definition MODIFY_BEARING_X :: "str list" where
  "MODIFY_BEARING_X =
     [[0xC4], [0xC0], [0xC2], [0xC3], [0xC6], [0xCE], [0xCF], [0xCC], [0xEE], [0xEF], [0xEC],
      [0xFF], [0xDD], [0x178], [0xC1], [0xFD], [0x41], [0x58], [0x59], [0x6A], [0x78], [0x79],
      [0x7D], [0x29], [0x2C], [0x2F], [0x5F]]"

text \<open>
  What \<^verbatim>\<open>from_face\<close> reads of the face after \<^verbatim>\<open>load_char\<close>: the fields of
  \<^verbatim>\<open>face.glyph.bitmap\<close> and of \<^verbatim>\<open>face.glyph.metrics\<close> (the latter in 26.6 fixed point).
\<close>

record glyph_slot =
  bitmap_width :: int
  bitmap_rows :: int
  bitmap_pitch :: int
  bitmap_buffer :: "int list"
  bitmap_num_grays :: int
  metrics_width :: int
  metrics_height :: int
  horiAdvance :: int
  horiBearingX :: int
  horiBearingY :: int

text \<open>
  The block under \<^verbatim>\<open>if shaveX > 0\<close>; the result is \<^verbatim>\<open>(advance, bearingX, remove_left)\<close>.
\<close>

definition discard_left :: "int \<Rightarrow> int \<Rightarrow> int \<Rightarrow> int \<times> int \<times> int" where
  "discard_left adv bx shave =
     (if shave > 0
      then (let diff = min adv (min bx shave) in (adv - diff, bx - diff, shave - diff))
      else (adv, bx, shave))"

text \<open>The block under \<^verbatim>\<open>if bearingX < 0\<close>; the result is \<^verbatim>\<open>(advance, bearingX)\<close>.\<close>

definition modify_bearing :: "str \<Rightarrow> int \<Rightarrow> int \<Rightarrow> error + (int \<times> int)" where
  "modify_bearing c adv bx =
     (if bx < 0
      then (if c \<in> set MODIFY_BEARING_X then Inr (adv + - bx, 0) else Inl ValueError)
      else Inr (adv, bx))"

record glyph =
  char :: str
  width :: int
  rows :: int
  advance :: int
  bearingX :: int
  bearingY :: int
  buf :: "int list"
  num_grays :: int
  inverse_colors :: bool

text \<open>
  The \<^verbatim>\<open>assert\<close> statements at the head of \<^verbatim>\<open>Glyph.from_face\<close>, in the order of the
  source: each of them raises AssertionError when it fails.
\<close>

definition metrics_asserts :: "glyph_slot \<Rightarrow> str \<Rightarrow> bool" where
  "metrics_asserts slot c =
     (length c = 1
      \<and> metrics_width slot div 64 = bitmap_width slot
      \<and> metrics_height slot div 64 = bitmap_rows slot
      \<and> metrics_width slot mod 64 = 0
      \<and> metrics_height slot mod 64 = 0
      \<and> horiAdvance slot mod 64 = 0
      \<and> horiBearingX slot mod 64 = 0
      \<and> horiBearingY slot mod 64 = 0
      \<and> bitmap_width slot = bitmap_pitch slot
      \<and> int (length (bitmap_buffer slot)) = bitmap_pitch slot * bitmap_rows slot)"

text \<open>
  \<^verbatim>\<open>Glyph.from_face\<close>. Every later \<^verbatim>\<open>assert\<close> is a branch to AssertionError, in the order
  of the source. The two \<^verbatim>\<open>print\<close> calls write to standard output only and are left out.
\<close>

definition from_face :: "glyph_slot \<Rightarrow> str \<Rightarrow> int \<Rightarrow> bool \<Rightarrow> error + glyph" where
  "from_face slot c shave inv_colors =
     (if \<not> metrics_asserts slot c then Inl AssertionError
      else
        (case discard_left (horiAdvance slot div 64) (horiBearingX slot div 64) shave of
           (adv1, bx1, remove_left) \<Rightarrow>
        (case modify_bearing c adv1 bx1 of
           Inl e \<Rightarrow> Inl e
         | Inr (adv2, bx2) \<Rightarrow>
             if \<not> (adv2 \<ge> 0 \<and> adv2 \<le> 255) then Inl AssertionError
             else if \<not> (bx2 \<ge> 0 \<and> bx2 \<le> 255) then Inl AssertionError
             else
               (let by1 = (if horiBearingY slot div 64 < 0 then 0 else horiBearingY slot div 64)
                in if \<not> (by1 \<ge> 0 \<and> by1 \<le> 255) then Inl AssertionError
                   else if remove_left > 0 \<and> bitmap_width slot > 0 then
                     (if bx2 \<noteq> 0 then Inl AssertionError
                      else
                        (case drop_left_columns (bitmap_buffer slot) (bitmap_width slot)
                                remove_left of
                           Inl e \<Rightarrow> Inl e
                         | Inr b \<Rightarrow>
                             if \<not> bitmap_width slot > remove_left then Inl AssertionError
                             else if \<not> adv2 > remove_left then Inl AssertionError
                             else Inr \<lparr>char = c, width = bitmap_width slot - remove_left,
                                       rows = bitmap_rows slot, advance = adv2 - remove_left,
                                       bearingX = bx2, bearingY = by1, buf = b,
                                       num_grays = bitmap_num_grays slot,
                                       inverse_colors = inv_colors\<rparr>))
                   else Inr \<lparr>char = c, width = bitmap_width slot, rows = bitmap_rows slot,
                             advance = adv2, bearingX = bx2, bearingY = by1,
                             buf = bitmap_buffer slot, num_grays = bitmap_num_grays slot,
                             inverse_colors = inv_colors\<rparr>))))"

definition process_byte :: "glyph \<Rightarrow> int \<Rightarrow> int" where
  "process_byte g b = (if inverse_colors g then b XOR 0xFF else b)"

text \<open>
  A value in \<^verbatim>\<open>range(0, 256)\<close>: an element that \<^verbatim>\<open>bytes\<close> accepts, and an 8 bit pixel
  as the rasterizer delivers it. \<^verbatim>\<open>bytes(xs)\<close> raises ValueError unless every element of
  the list is such a value.
\<close>

definition is_byte :: "int \<Rightarrow> bool" where
  "is_byte x = (0 \<le> x \<and> x < 256)"

definition bytes :: "int list \<Rightarrow> error + int list" where
  "bytes xs = (if list_all is_byte xs then Inr xs else Inl ValueError)"

definition to_bytes :: "glyph \<Rightarrow> int \<Rightarrow> error + int list" where
  "to_bytes g bpp =
     (let infos = [width g, rows g, advance g, bearingX g, bearingY g]
      in if buf g \<noteq> [] then
           (case process_bitmap_buffer (buf g) bpp (width g) (rows g) of
              Inl e \<Rightarrow> Inl e
            | Inr packed \<Rightarrow> bytes (infos @ map (process_byte g) packed))
         else bytes infos)"

section \<open>FaceProcessor\<close>

definition MIN_GLYPH :: nat where
  "MIN_GLYPH = 32"

definition MAX_GLYPH :: nat where
  "MAX_GLYPH = 126"

text \<open>
  \<^verbatim>\<open>chr(i).islower()\<close> for the code points of \<^verbatim>\<open>range(MIN_GLYPH, MAX_GLYPH + 1)\<close>: there it
  holds exactly of the letters a to z.
\<close>

definition islower :: "nat \<Rightarrow> bool" where
  "islower i = (97 \<le> i \<and> i \<le> 122)"

text \<open>
  The fields of a \<^verbatim>\<open>FaceProcessor\<close> that the modelled methods read. \<open>face\<close> gives, for a
  character, the glyph slot that \<^verbatim>\<open>face.load_char\<close> leaves in \<^verbatim>\<open>face.glyph\<close>. The
  accumulators \<^verbatim>\<open>font_ymin\<close> and \<^verbatim>\<open>font_ymax\<close> are passed as a pair \<open>(ymin, ymax)\<close>;
  \<^verbatim>\<open>__init__\<close> sets them to 0.
\<close>

record face_processor =
  font_size :: int
  font_bpp :: int
  shaveX :: int
  gen_normal :: bool
  gen_upper :: bool
  font_idx :: "int option"
  font_idx_upper :: "int option"
  face :: "str \<Rightarrow> glyph_slot"

definition init_extent :: "int \<times> int" where
  "init_extent = (0, 0)"

text \<open>
  The update of the accumulators, written twice in the source (in
  \<^verbatim>\<open>_write_char_definition\<close> and in step 4 of \<^verbatim>\<open>write_rust_file\<close>).
\<close>

definition update_extent :: "glyph \<Rightarrow> int \<times> int \<Rightarrow> int \<times> int" where
  "update_extent g acc =
     (let yMin = bearingY g - rows g; yMax = yMin + rows g
      in (min (fst acc) yMin, max (snd acc) yMax))"

text \<open>Step 1 of \<^verbatim>\<open>write_rust_file\<close>: the glyph definitions, as pairs of code and bytes.\<close>

fun glyphs_loop :: "face_processor \<Rightarrow> nat list \<Rightarrow> error + (nat \<times> int list) list" where
  "glyphs_loop fp [] = Inr []"
| "glyphs_loop fp (i # rest) =
     (if islower i \<and> \<not> gen_normal fp then glyphs_loop fp rest
      else
        (case from_face (face fp [i]) [i] (shaveX fp) False of
           Inl e \<Rightarrow> Inl e
         | Inr g \<Rightarrow>
             (case to_bytes g (font_bpp fp) of
                Inl e \<Rightarrow> Inl e
              | Inr arr_bytes \<Rightarrow>
                  (case glyphs_loop fp rest of
                     Inl e \<Rightarrow> Inl e
                   | Inr gs \<Rightarrow> Inr ((i, arr_bytes) # gs)))))"

text \<open>Step 4 of \<^verbatim>\<open>write_rust_file\<close>: the loop that recomputes the accumulators.\<close>

fun extent_loop :: "face_processor \<Rightarrow> nat list \<Rightarrow> int \<times> int \<Rightarrow> error + (int \<times> int)" where
  "extent_loop fp [] acc = Inr acc"
| "extent_loop fp (i # rest) acc =
     (if islower i \<and> \<not> gen_normal fp then extent_loop fp rest acc
      else
        (case from_face (face fp [i]) [i] (shaveX fp) False of
           Inl e \<Rightarrow> Inl e
         | Inr g \<Rightarrow> extent_loop fp rest (update_extent g acc)))"

text \<open>
  The dictionaries \<^verbatim>\<open>font_info\<close> and \<^verbatim>\<open>font_info_upper\<close> of step 5, without the two
  entries that only name generated arrays.
\<close>

record font_info =
  variant :: string
  translation_blob_idx :: int
  height :: int
  max_height :: int
  baseline :: int

text \<open>
  The part of the template data of \<^verbatim>\<open>write_rust_file\<close> that depends on the glyphs.
  Rendering the template and writing the file are left out.
\<close>

record rust_data =
  glyphs :: "(nat \<times> int list) list"
  nonprintable :: "int list"
  font_info :: "font_info option"
  font_info_upper :: "font_info option"

definition write_rust_file :: "face_processor \<Rightarrow> error + rust_data" where
  "write_rust_file fp =
     (case glyphs_loop fp [MIN_GLYPH..<MAX_GLYPH + 1] of
        Inl e \<Rightarrow> Inl e
      | Inr gs \<Rightarrow>
     (case from_face (face fp [63]) [63] (shaveX fp) True of
        Inl e \<Rightarrow> Inl e
      | Inr glyph_np \<Rightarrow>
     (case to_bytes glyph_np (font_bpp fp) of
        Inl e \<Rightarrow> Inl e
      | Inr arr_bytes_np \<Rightarrow>
     (case extent_loop fp [MIN_GLYPH..<MAX_GLYPH + 1] (0, 0) of
        Inl e \<Rightarrow> Inl e
      | Inr (ymin, ymax) \<Rightarrow>
     (case (if gen_normal fp
            then (case font_idx fp of
                    None \<Rightarrow> Inl ValueError
                  | Some idx \<Rightarrow>
                      Inr (Some \<lparr>variant = ''normal'', translation_blob_idx = idx,
                                 height = font_size fp, max_height = ymax - ymin,
                                 baseline = - ymin\<rparr>))
            else Inr None) of
        Inl e \<Rightarrow> Inl e
      | Inr info \<Rightarrow>
     (case (if gen_upper fp
            then (case font_idx_upper fp of
                    None \<Rightarrow> Inl ValueError
                  | Some idx \<Rightarrow>
                      Inr (Some \<lparr>variant = ''upper'', translation_blob_idx = idx,
                                 height = font_size fp, max_height = ymax - ymin,
                                 baseline = - ymin\<rparr>))
            else Inr None) of
        Inl e \<Rightarrow> Inl e
      | Inr info_upper \<Rightarrow>
          Inr \<lparr>glyphs = gs, nonprintable = arr_bytes_np, font_info = info,
                font_info_upper = info_upper\<rparr>))))))"

text \<open>
  The C file. \<^verbatim>\<open>_write_char_definition\<close> extracts the glyph, serializes it for the
  definition line and then updates the accumulators of the processor.
\<close>

fun write_char_definitions ::
  "face_processor \<Rightarrow> nat list \<Rightarrow> int \<times> int \<Rightarrow> error + (int \<times> int)" where
  "write_char_definitions fp [] acc = Inr acc"
| "write_char_definitions fp (i # rest) acc =
     (if islower i \<and> \<not> gen_normal fp then write_char_definitions fp rest acc
      else
        (case from_face (face fp [i]) [i] (shaveX fp) False of
           Inl e \<Rightarrow> Inl e
         | Inr g \<Rightarrow>
             (case to_bytes g (font_bpp fp) of
                Inl e \<Rightarrow> Inl e
              | Inr arr_bytes \<Rightarrow> write_char_definitions fp rest (update_extent g acc))))"

text \<open>The struct written by \<^verbatim>\<open>_write_font_info_structure\<close>, without the array names.\<close>

record font_info_t =
  c_height :: int
  c_max_height :: int
  c_baseline :: int

definition write_font_info_structure :: "face_processor \<Rightarrow> int \<times> int \<Rightarrow> font_info_t" where
  "write_font_info_structure fp acc =
     \<lparr>c_height = font_size fp, c_max_height = snd acc - fst acc, c_baseline = - fst acc\<rparr>"

text \<open>
  \<^verbatim>\<open>_write_c_file_content\<close>: the result is the info structure of the normal and of the
  upper variant, where generated, and the accumulators of the processor afterwards.
\<close>

definition write_c_file_content ::
  "face_processor \<Rightarrow> int \<times> int \<Rightarrow>
     error + (font_info_t option \<times> font_info_t option \<times> (int \<times> int))" where
  "write_c_file_content fp acc =
     (case write_char_definitions fp [MIN_GLYPH..<MAX_GLYPH + 1] acc of
        Inl e \<Rightarrow> Inl e
      | Inr acc' \<Rightarrow>
     (case from_face (face fp [63]) [63] (shaveX fp) True of
        Inl e \<Rightarrow> Inl e
      | Inr glyph_np \<Rightarrow>
     (case to_bytes glyph_np (font_bpp fp) of
        Inl e \<Rightarrow> Inl e
      | Inr arr_bytes_np \<Rightarrow>
          Inr (if gen_normal fp then Some (write_font_info_structure fp acc') else None,
               if gen_upper fp then Some (write_font_info_structure fp acc') else None,
               acc'))))"

section \<open>Reference unpackers\<close>

text \<open>
  Modelled from the spec: the synthetic unpackers of the round-trip property, which are
  not part of the script. They read a packed byte in the layout the spec gives for each
  depth: most significant bit first for 1 and 2 bits per pixel, and for 4 bits per pixel
  the first pixel of a pair in the low nibble and the second in the high nibble.
  \<open>top_bits n p\<close> is the top \<open>n\<close> bits of an 8 bit pixel.
\<close>

definition top_bits :: "nat \<Rightarrow> int \<Rightarrow> int" where
  "top_bits n p = drop_bit (8 - n) p"

definition ref_unpack1_byte :: "int \<Rightarrow> int list" where
  "ref_unpack1_byte B =
     [drop_bit 7 B AND 1, drop_bit 6 B AND 1, drop_bit 5 B AND 1, drop_bit 4 B AND 1,
      drop_bit 3 B AND 1, drop_bit 2 B AND 1, drop_bit 1 B AND 1, B AND 1]"

definition ref_unpack2_byte :: "int \<Rightarrow> int list" where
  "ref_unpack2_byte B = [drop_bit 6 B AND 3, drop_bit 4 B AND 3, drop_bit 2 B AND 3, B AND 3]"

definition ref_unpack4_byte :: "int \<Rightarrow> int list" where
  "ref_unpack4_byte B = [B AND 0x0F, drop_bit 4 B AND 0x0F]"

definition ref_unpack :: "int \<Rightarrow> int list \<Rightarrow> int list" where
  "ref_unpack bpp bs =
     (if bpp = 1 then concat (map ref_unpack1_byte bs)
      else if bpp = 2 then concat (map ref_unpack2_byte bs)
      else if bpp = 4 then concat (map ref_unpack4_byte bs)
      else bs)"

section \<open>The words of the spec\<close>

text \<open>
  The \<open>transform\<close> of the spec's serializer, in the spec's words: \<open>XOR(buf, 0xFF)\<close>, the
  byte-wise inversion of a pixel buffer.
\<close>

definition invert_pixels :: "int list \<Rightarrow> int list" where
  "invert_pixels xs = map (\<lambda>x. x XOR 0xFF) xs"

text \<open>
  Step 1 of the spec's normalization, in the spec's words: \<open>diff = min(advance, bearingX,
  shaveX)\<close> is subtracted from advance and bearingX, and \<open>remaining = shaveX - diff\<close>.
\<close>

definition spec_step1 :: "int \<Rightarrow> int \<Rightarrow> int \<Rightarrow> int \<times> int \<times> int" where
  "spec_step1 adv bx shave =
     (let diff = min adv (min bx shave) in (adv - diff, bx - diff, shave - diff))"

section \<open>Lemmas on lists and slices\<close>

lemma traverse_map:
  "(\<And>x. x \<in> set xs \<Longrightarrow> f x = Inr (g x)) \<Longrightarrow> traverse f xs = Inr (map g xs)"
  by (induction xs) auto

lemma upto_map_int: "[0..int h - 1] = map int [0..<h]"
  by (induction h) (simp_all add: upto_rec2)

lemma ceil_exact: "0 < n \<Longrightarrow> (m * n + n - Suc 0) div n = m"
  by (rule div_nat_eqI) (simp_all add: algebra_simps)

lemma ceil_mult:
  "0 < n \<Longrightarrow> ((k + n - Suc 0) div n) * n = (if k mod n = 0 then k else k + (n - k mod n))"
proof -
  assume n: "0 < n"
  define q where "q = k div n"
  define r where "r = k mod n"
  have k: "k = n * q + r" by (simp add: q_def r_def)
  have r: "r < n" using n by (simp add: r_def)
  show ?thesis
  proof (cases "r = 0")
    case True
    have "(k + n - Suc 0) div n = q"
      by (rule div_nat_eqI) (use n True in \<open>simp_all add: k\<close>)
    then have "(k + n - Suc 0) div n * n = k" using True by (simp add: k)
    then show ?thesis using True by (simp add: r_def [symmetric])
  next
    case False
    have "(k + n - Suc 0) div n = Suc q"
      by (rule div_nat_eqI) (use n r False in \<open>simp_all add: k\<close>)
    then have "(k + n - Suc 0) div n * n = n * q + n" by simp
    moreover have "k + (n - r) = n * q + n" using r by (simp add: k)
    ultimately have "(k + n - Suc 0) div n * n = k + (n - r)" by simp
    then show ?thesis using False by (simp add: r_def [symmetric])
  qed
qed

lemma length_pad_to: "0 < n \<Longrightarrow> length (pad_to n xs) = ((length xs + n - 1) div n) * n"
  using ceil_mult[of n "length xs"] by (simp add: pad_to_def)

lemma pad_to_eq: "0 < n \<Longrightarrow> pad_to n xs = xs @ replicate (((length xs + n - 1) div n) * n - length xs) 0"
  using ceil_mult[of n "length xs"] by (simp add: pad_to_def)

lemma chunks_exact:
  "0 < n \<Longrightarrow> length xs = m * n \<Longrightarrow> chunks n xs = map (\<lambda>k. take n (drop (k * n) xs)) [0..<m]"
  by (simp add: chunks_def ceil_exact)

lemma concat_slices: "concat (map (\<lambda>k. take n (drop (k * n) xs)) [0..<m]) = take (m * n) xs"
proof (induction m)
  case 0
  then show ?case by simp
next
  case (Suc m)
  have "take (Suc m * n) xs = take (m * n + n) xs" by (simp add: add.commute)
  also have "\<dots> = take (m * n) xs @ take n (drop (m * n) xs)" by (rule take_add)
  finally show ?case using Suc by simp
qed

lemma length_slice: "length xs = m * n \<Longrightarrow> k < m \<Longrightarrow> length (take n (drop (k * n) xs)) = n"
proof -
  assume a: "length xs = m * n" "k < m"
  then have "Suc k * n \<le> m * n" by (intro mult_le_mono1) simp
  then show ?thesis using a by simp
qed

lemma chunks_padded:
  assumes "0 < n"
  shows "chunks n (pad_to n xs) =
           map (\<lambda>k. take n (drop (k * n) (pad_to n xs))) [0..<(length xs + n - 1) div n]"
    and "\<And>c. c \<in> set (chunks n (pad_to n xs)) \<Longrightarrow> length c = n"
    and "concat (chunks n (pad_to n xs)) = pad_to n xs"
proof -
  let ?m = "(length xs + n - 1) div n"
  have len: "length (pad_to n xs) = ?m * n" using assms by (rule length_pad_to)
  show c: "chunks n (pad_to n xs) = map (\<lambda>k. take n (drop (k * n) (pad_to n xs))) [0..<?m]"
    using assms len by (rule chunks_exact)
  show "\<And>c. c \<in> set (chunks n (pad_to n xs)) \<Longrightarrow> length c = n"
    unfolding c using length_slice[OF len] by auto
  show "concat (chunks n (pad_to n xs)) = pad_to n xs"
    unfolding c concat_slices using len by simp
qed

lemma length_concat_uniform:
  "(\<And>x. x \<in> set xss \<Longrightarrow> length x = c) \<Longrightarrow> length (concat xss) = length xss * c"
  by (induction xss) auto

lemma nth_concat_uniform:
  "(\<And>x. x \<in> set xss \<Longrightarrow> length x = c) \<Longrightarrow> y < length xss \<Longrightarrow> j < c \<Longrightarrow>
     concat xss ! (y * c + j) = xss ! y ! j"
proof (induction xss arbitrary: y)
  case Nil
  then show ?case by simp
next
  case (Cons x xss)
  have lx: "length x = c" using Cons.prems(1) by simp
  show ?case
  proof (cases y)
    case 0
    then show ?thesis using lx Cons.prems(3) by (simp add: nth_append)
  next
    case (Suc y')
    have "concat xss ! (y' * c + j) = xss ! y' ! j"
      using Cons.prems Suc by (intro Cons.IH) auto
    then show ?thesis using lx Suc by (simp add: nth_append)
  qed
qed

lemma length_evens: "length (evens xs) = (length xs + 1) div 2"
  by (induction xs rule: evens.induct) auto

lemma length_odds: "length (odds xs) = length xs div 2"
  by (induction xs rule: odds.induct) auto

lemma evens_nth: "2 * j < length xs \<Longrightarrow> evens xs ! j = xs ! (2 * j)"
proof (induction xs arbitrary: j rule: evens.induct)
  case (3 x y xs)
  then show ?case by (cases j) auto
qed simp_all

lemma odds_nth: "2 * j + 1 < length xs \<Longrightarrow> odds xs ! j = xs ! (2 * j + 1)"
proof (induction xs arbitrary: j rule: odds.induct)
  case (3 x y xs)
  then show ?case by (cases j) auto
qed simp_all

lemma py_slice_row:
  "length xs = w * h \<Longrightarrow> y < h \<Longrightarrow>
     py_slice xs (int y * int w) ((int y + 1) * int w) = take w (drop (y * w) xs)"
proof -
  assume a: "length xs = w * h" "y < h"
  then have le: "Suc y * w \<le> w * h" by (simp add: mult.commute [of w h] del: mult_Suc) 
  have i1: "nat (int y * int w) = y * w" by (simp add: nat_mult_distrib)
  have i2: "nat ((int y + 1) * int w) = Suc y * w"
    by (metis nat_int of_nat_Suc of_nat_mult add.commute of_nat_1 of_nat_add)
  have n1: "\<not> int y * int w < 0" by (simp add: not_less)
  have n2: "\<not> (int y + 1) * int w < 0" by (simp add: not_less)
  have "slice_index (length xs) (int y * int w) = y * w"
    unfolding slice_index_def i1 using le a n1 by simp
  moreover have "slice_index (length xs) ((int y + 1) * int w) = Suc y * w"
    unfolding slice_index_def i2 using le a n2 by simp
  ultimately show ?thesis by (simp add: py_slice_def)
qed

section \<open>Lemmas on the packed bytes\<close>

subsection \<open>Bits of the constants\<close>

lemma bit_shifted_mask: "bit (push_bit k (mask m) :: int) n \<longleftrightarrow> k \<le> n \<and> n < k + m"
  by (auto simp only: bit_push_bit_iff bit_mask_iff possible_bit_int)

lemma bit_80: "bit (0x80::int) n \<longleftrightarrow> n = 7"
proof -
  have "push_bit 7 (mask 1) = (0x80::int)" by (simp add: mask_eq_exp_minus_1)
  then show ?thesis using bit_shifted_mask[of 7 1 n] by (simp only:) arith
qed

lemma bit_C0: "bit (0xC0::int) n \<longleftrightarrow> 6 \<le> n \<and> n < 8"
proof -
  have "push_bit 6 (mask 2) = (0xC0::int)" by (simp add: mask_eq_exp_minus_1)
  then show ?thesis using bit_shifted_mask[of 6 2 n] by (simp only:) arith
qed

lemma bit_F0: "bit (0xF0::int) n \<longleftrightarrow> 4 \<le> n \<and> n < 8"
proof -
  have "push_bit 4 (mask 4) = (0xF0::int)" by (simp add: mask_eq_exp_minus_1)
  then show ?thesis using bit_shifted_mask[of 4 4 n] by (simp only:) arith
qed

lemma bit_FF: "bit (0xFF::int) n \<longleftrightarrow> n < 8"
proof -
  have "push_bit 0 (mask 8) = (0xFF::int)" by (simp add: mask_eq_exp_minus_1)
  then show ?thesis using bit_shifted_mask[of 0 8 n] by (simp only:) arith
qed

lemma bit_0F: "bit (0x0F::int) n \<longleftrightarrow> n < 4"
proof -
  have "push_bit 0 (mask 4) = (0x0F::int)" by (simp add: mask_eq_exp_minus_1)
  then show ?thesis using bit_shifted_mask[of 0 4 n] by (simp only:) arith
qed

lemma bit_03: "bit (3::int) n \<longleftrightarrow> n < 2"
proof -
  have "push_bit 0 (mask 2) = (3::int)" by (simp add: mask_eq_exp_minus_1)
  then show ?thesis using bit_shifted_mask[of 0 2 n] by (simp only:) arith
qed

lemma bit_01: "bit (1::int) n \<longleftrightarrow> n = 0"
  by (simp add: bit_1_iff)

lemma byte_bit_less: "is_byte a \<Longrightarrow> bit a n \<Longrightarrow> n < 8"
proof -
  assume "is_byte a" and b: "bit a n"
  then have "take_bit 8 a = a" by (simp add: take_bit_int_eq_self is_byte_def)
  then show ?thesis using b by (metis bit_take_bit_iff)
qed

lemma is_byteI: "(\<And>n. bit a n \<Longrightarrow> n < 8) \<Longrightarrow> is_byte a"
proof -
  assume h: "\<And>n. bit a n \<Longrightarrow> n < 8"
  have "take_bit 8 a = a" by (rule bit_eqI) (auto simp: bit_take_bit_iff dest: h)
  moreover have "0 \<le> take_bit 8 a" by simp
  moreover have "take_bit 8 a < 2 ^ 8" by (rule take_bit_int_less_exp)
  ultimately show ?thesis by (simp add: is_byte_def)
qed

lemmas pack_bits = bit_and_iff bit_or_iff bit_xor_iff bit_drop_bit_eq o_apply
  bit_80 bit_C0 bit_F0 bit_FF bit_0F bit_03 bit_01

subsection \<open>One packed byte\<close>

lemma pack1_byte_Inr: "length xs = 8 \<Longrightarrow> pack1_byte xs = Inr (projr (pack1_byte xs))"
  by (auto simp: length_Suc_conv numeral_eq_Suc)

lemma pack2_byte_Inr: "length xs = 4 \<Longrightarrow> pack2_byte xs = Inr (projr (pack2_byte xs))"
  by (auto simp: length_Suc_conv numeral_eq_Suc)

lemma unpack1_pack1:
  assumes "length xs = 8" and "list_all is_byte xs"
  shows "ref_unpack1_byte (projr (pack1_byte xs)) = map (top_bits 1) xs"
proof -
  obtain a b c d e f g h where xs: "xs = [a, b, c, d, e, f, g, h]"
    using assms(1) by (auto simp: length_Suc_conv numeral_eq_Suc)
  have bs: "is_byte a" "is_byte b" "is_byte c" "is_byte d" "is_byte e" "is_byte f" "is_byte g"
    "is_byte h" using assms(2) xs by auto
  show ?thesis
    unfolding xs ref_unpack1_byte_def top_bits_def
    apply (simp only: pack1_byte.simps sum.sel list.map list.inject simp_thms)
    apply (intro conjI)
           apply ((rule bit_eqI, simp only: pack_bits, auto dest: bs [THEN byte_bit_less])[1])+
    done
qed

lemma unpack2_pack2:
  assumes "length xs = 4" and "list_all is_byte xs"
  shows "ref_unpack2_byte (projr (pack2_byte xs)) = map (top_bits 2) xs"
proof -
  obtain a b c d where xs: "xs = [a, b, c, d]"
    using assms(1) by (auto simp: length_Suc_conv numeral_eq_Suc)
  have bs: "is_byte a" "is_byte b" "is_byte c" "is_byte d"
    using assms(2) xs by auto
  show ?thesis
    unfolding xs ref_unpack2_byte_def top_bits_def
    apply (simp only: pack2_byte.simps sum.sel list.map list.inject simp_thms)
    apply (intro conjI)
       apply ((rule bit_eqI, simp only: pack_bits, auto dest: bs [THEN byte_bit_less])[1])+
    done
qed

lemma unpack4_pair:
  assumes "is_byte a" and "is_byte b"
  shows "ref_unpack4_byte ((b AND 0xF0) OR drop_bit 4 a) = [top_bits 4 a, top_bits 4 b]"
  unfolding ref_unpack4_byte_def top_bits_def
  apply (simp only: list.inject simp_thms)
  apply (intro conjI)
   apply ((rule bit_eqI, simp only: pack_bits, auto dest: assms [THEN byte_bit_less])[1])+
  done

lemma unpack4_last:
  assumes "is_byte a"
  shows "ref_unpack4_byte (drop_bit 4 a) = [top_bits 4 a, 0]"
  unfolding ref_unpack4_byte_def top_bits_def
  apply (simp only: list.inject simp_thms)
  apply (intro conjI)
   apply ((rule bit_eqI, simp only: pack_bits, auto dest: assms [THEN byte_bit_less])[1])+
  done

lemma nibbles_pair:
  assumes "is_byte a" and "is_byte b"
  shows "drop_bit 4 ((b AND 0xF0) OR drop_bit 4 a) = drop_bit 4 b"
    and "((b AND 0xF0) OR drop_bit 4 a) AND 0x0F = drop_bit 4 a"
   apply ((rule bit_eqI, simp only: pack_bits, auto dest: assms [THEN byte_bit_less])[1])+
  done

lemma nibbles_last:
  assumes "is_byte a"
  shows "drop_bit 4 (drop_bit 4 a) = 0" and "drop_bit 4 a AND 0x0F = drop_bit 4 a"
   apply ((rule bit_eqI, simp only: pack_bits, auto dest: assms [THEN byte_bit_less])[1])+
  done

lemma odd_and_one: "(int w AND 1 \<noteq> 0) \<longleftrightarrow> odd w"
  by (simp add: and_one_eq) presburger

lemma pack4_row_eq:
  "length row = w \<Longrightarrow>
     pack4_row row (int w) =
       Inr (map (\<lambda>(a, b). (b AND 0xF0) OR drop_bit 4 a) (zip (evens row) (odds row))
            @ (if odd w then [drop_bit 4 (last row)] else []))"
  unfolding pack4_row_def Let_def odd_and_one by auto

lemma length_pack4_row:
  "length row = w \<Longrightarrow> length (projr (pack4_row row (int w))) = (w + 1) div 2"
  by (simp add: pack4_row_eq length_evens length_odds)

lemma unpack4_row:
  "list_all is_byte row \<Longrightarrow>
     concat (map ref_unpack4_byte
        (map (\<lambda>(a, b). (b AND 0xF0) OR drop_bit 4 a) (zip (evens row) (odds row))
            @ (if odd (length row) then [drop_bit 4 (last row)] else [])))
     = map (top_bits 4) row @ replicate (length row mod 2) 0"
proof (induction row rule: evens.induct)
  case 1
  then show ?case by simp
next
  case (2 x)
  then show ?case by (simp add: unpack4_last)
next
  case (3 x y xs)
  then show ?case by (auto simp: unpack4_pair)
qed

subsection \<open>The packed buffer\<close>

lemma pack1_result:
  "process_bitmap_buffer px 1 wd ht =
     Inr (map (\<lambda>c. projr (pack1_byte c)) (chunks 8 (pad_to 8 px)))"
proof -
  have "traverse pack1_byte (chunks 8 (pad_to 8 px)) =
          Inr (map (\<lambda>c. projr (pack1_byte c)) (chunks 8 (pad_to 8 px)))"
    by (rule traverse_map) (rule pack1_byte_Inr, rule chunks_padded(2), simp)
  then show ?thesis by (simp add: process_bitmap_buffer_def)
qed

lemma pack2_result:
  "process_bitmap_buffer px 2 wd ht =
     Inr (map (\<lambda>c. projr (pack2_byte c)) (chunks 4 (pad_to 4 px)))"
proof -
  have "traverse pack2_byte (chunks 4 (pad_to 4 px)) =
          Inr (map (\<lambda>c. projr (pack2_byte c)) (chunks 4 (pad_to 4 px)))"
    by (rule traverse_map) (rule pack2_byte_Inr, rule chunks_padded(2), simp)
  then show ?thesis by (simp add: process_bitmap_buffer_def)
qed

lemma pack4_result:
  assumes "length px = w * h"
  shows "process_bitmap_buffer px 4 (int w) (int h) =
     Inr (concat (map (\<lambda>y. projr (pack4_row (take w (drop (y * w) px)) (int w))) [0..<h]))"
proof -
  have row: "pack4_row (py_slice px (y * int w) ((y + 1) * int w)) (int w) =
      Inr (projr (pack4_row (take w (drop (nat y * w) px)) (int w)))"
    if "y \<in> set (map int [0..<h])" for y
  proof -
    from that obtain k where k: "y = int k" "k < h" by auto
    have "length (take w (drop (k * w) px)) = w"
      using length_slice[of px h w k] assms k by (simp add: mult.commute)
    then show ?thesis
      using py_slice_row[OF assms k(2)] k by (simp add: pack4_row_eq)
  qed
  have "traverse (\<lambda>y. pack4_row (py_slice px (y * int w) ((y + 1) * int w)) (int w))
          (map int [0..<h]) =
        Inr (map (\<lambda>y. projr (pack4_row (take w (drop (nat y * w) px)) (int w))) (map int [0..<h]))"
    by (rule traverse_map) (rule row)
  then show ?thesis
    unfolding process_bitmap_buffer_def upto_map_int by (simp add: comp_def)
qed

lemma is_byte_pad: "list_all is_byte px \<Longrightarrow> list_all is_byte (pad_to n px)"
  by (auto simp: pad_to_def is_byte_def list_all_iff)

lemma is_byte_chunk:
  "list_all is_byte xs \<Longrightarrow> c \<in> set (chunks n xs) \<Longrightarrow> list_all is_byte c"
proof -
  assume a: "list_all is_byte xs" "c \<in> set (chunks n xs)"
  then obtain k where "c = take n (drop (k * n) xs)" by (auto simp: chunks_def)
  then have "set c \<subseteq> set xs"
    using set_take_subset set_drop_subset by fastforce
  then show ?thesis using a(1) by (auto simp: list_all_iff)
qed

lemma map_concat_chunks:
  assumes "\<And>c. c \<in> set cs \<Longrightarrow> u (p c) = map t c"
  shows "concat (map u (map p cs)) = map t (concat cs)"
  using assms by (induction cs) auto

section \<open>Length of the packed buffer\<close>

lemma length_chunks_padded: "0 < n \<Longrightarrow> length (chunks n (pad_to n xs)) = (length xs + n - 1) div n"
  by (simp add: chunks_padded(1))

lemma rows_uniform:
  assumes "length px = w * h"
  shows "x \<in> set (map (\<lambda>y. projr (pack4_row (take w (drop (y * w) px)) (int w))) [0..<h])
     \<Longrightarrow> length x = (w + 1) div 2"
proof -
  assume "x \<in> set (map (\<lambda>y. projr (pack4_row (take w (drop (y * w) px)) (int w))) [0..<h])"
  then obtain y where y: "y < h" "x = projr (pack4_row (take w (drop (y * w) px)) (int w))"
    by auto
  have "length (take w (drop (y * w) px)) = w"
    using length_slice[of px h w y] assms y(1) by (simp add: mult.commute)
  then show ?thesis unfolding y(2) by (rule length_pack4_row)
qed

text \<open>
  Claim C7. For a buffer of \<open>w * h\<close> pixels the packer returns, without raising,
  \<open>ceil(w * h / 8)\<close> bytes at 1 bit per pixel, \<open>ceil(w * h / 4)\<close> bytes at 2 bits,
  \<open>h * ceil(w / 2)\<close> bytes at 4 bits and the buffer itself at 8 bits; the 1 by 1 bitmap
  with the pixel \<open>0xFF\<close> packs at 1 bit per pixel to the single byte \<open>0x80\<close>.
\<close>

theorem pack_output_length:
  assumes "length px = w * h"
  shows "(\<exists>r. process_bitmap_buffer px 1 (int w) (int h) = Inr r \<and> length r = (w * h + 7) div 8)
       \<and> (\<exists>r. process_bitmap_buffer px 2 (int w) (int h) = Inr r \<and> length r = (w * h + 3) div 4)
       \<and> (\<exists>r. process_bitmap_buffer px 4 (int w) (int h) = Inr r
              \<and> length r = h * ((w + 1) div 2))
       \<and> process_bitmap_buffer px 8 (int w) (int h) = Inr px
       \<and> process_bitmap_buffer [0xFF] 1 1 1 = Inr [0x80]"
proof (intro conjI)
  show "\<exists>r. process_bitmap_buffer px 1 (int w) (int h) = Inr r \<and> length r = (w * h + 7) div 8"
    using assms by (simp add: pack1_result length_chunks_padded)
  show "\<exists>r. process_bitmap_buffer px 2 (int w) (int h) = Inr r \<and> length r = (w * h + 3) div 4"
    using assms by (simp add: pack2_result length_chunks_padded)
  show "\<exists>r. process_bitmap_buffer px 4 (int w) (int h) = Inr r \<and> length r = h * ((w + 1) div 2)"
  proof -
    let ?rows = "map (\<lambda>y. projr (pack4_row (take w (drop (y * w) px)) (int w))) [0..<h]"
    have "length (concat ?rows) = length ?rows * ((w + 1) div 2)"
      by (rule length_concat_uniform) (rule rows_uniform[OF assms])
    then show ?thesis by (simp add: pack4_result[OF assms])
  qed
  show "process_bitmap_buffer px 8 (int w) (int h) = Inr px"
    by (simp add: process_bitmap_buffer_def)
  show "process_bitmap_buffer [0xFF] 1 1 1 = Inr [0x80]"
    by code_simp
qed

theorem pack_output_length_witness:
  "length [0xF0, 0x00, 0xA0 :: int] = 3 * 1
   \<and> process_bitmap_buffer [0xF0, 0x00, 0xA0] 1 3 1 = Inr [0xA0]
   \<and> process_bitmap_buffer [0xF0, 0x00, 0xA0] 2 3 1 = Inr [0xC8]
   \<and> process_bitmap_buffer [0xF0, 0x00, 0xA0] 4 3 1 = Inr [0x0F, 0x0A]
   \<and> process_bitmap_buffer [0xF0, 0x00, 0xA0] 8 3 1 = Inr [0xF0, 0x00, 0xA0]"
proof -
  have len: "length [0xF0, 0x00, 0xA0 :: int] = 3 * 1" by simp
  have e1: "process_bitmap_buffer [0xF0, 0x00, 0xA0] 1 3 1 = Inr [0xA0]" by code_simp
  have e2: "process_bitmap_buffer [0xF0, 0x00, 0xA0] 2 3 1 = Inr [0xC8]" by code_simp
  have e4: "process_bitmap_buffer [0xF0, 0x00, 0xA0] 4 3 1 = Inr [0x0F, 0x0A]" by code_simp
  show ?thesis
    using pack_output_length[OF len] len e1 e2 e4 by simp
qed

section \<open>The rows of the 4 bit packing\<close>

lemma row_nth:
  assumes "length px = w * h" and "y < h" and "i < w"
  shows "take w (drop (y * w) px) ! i = px ! (y * w + i)"
proof -
  have "Suc y * w \<le> h * w" using assms(2) by (intro mult_le_mono1) simp
  then have "y * w + i < length px" using assms by (simp add: mult.commute)
  then show ?thesis using assms(3) by simp
qed

lemma row_length:
  assumes "length px = w * h" and "y < h"
  shows "length (take w (drop (y * w) px)) = w"
  using length_slice[of px h w y] assms by (simp add: mult.commute)

lemma concat_rows_nth:
  assumes "length px = w * h" and "y < h" and "k < (w + 1) div 2"
  shows "concat (map (\<lambda>y. projr (pack4_row (take w (drop (y * w) px)) (int w))) [0..<h])
             ! (y * ((w + 1) div 2) + k) = projr (pack4_row (take w (drop (y * w) px)) (int w)) ! k"
proof -
  let ?rows = "map (\<lambda>y. projr (pack4_row (take w (drop (y * w) px)) (int w))) [0..<h]"
  have u: "\<And>x. x \<in> set ?rows \<Longrightarrow> length x = (w + 1) div 2"
    by (rule rows_uniform[OF assms(1)])
  have yl: "y < length ?rows" using assms(2) by simp
  have "concat ?rows ! (y * ((w + 1) div 2) + k) = ?rows ! y ! k"
    using u yl assms(3) by (rule nth_concat_uniform)
  also have "?rows ! y = projr (pack4_row (take w (drop (y * w) px)) (int w))"
    using assms(2) by simp
  finally show ?thesis .
qed


lemma pack4_pair_nth:
  assumes "length row = w" and "j < w div 2"
  shows "projr (pack4_row row (int w)) ! j =
            (row ! (2 * j + 1) AND 0xF0) OR drop_bit 4 (row ! (2 * j))"
proof -
  have lz: "length (zip (evens row) (odds row)) = w div 2"
    using assms(1) by (simp add: length_evens length_odds)
  have "projr (pack4_row row (int w)) ! j =
          map (\<lambda>(a, b). (b AND 0xF0) OR drop_bit 4 a) (zip (evens row) (odds row)) ! j"
    unfolding pack4_row_eq[OF assms(1)] sum.sel using assms(2) lz by (simp only: nth_append length_map if_True)
  also have "\<dots> = (\<lambda>(a, b). (b AND 0xF0) OR drop_bit 4 a) (zip (evens row) (odds row) ! j)"
    using assms(2) lz by (simp only: nth_map)
  also have "zip (evens row) (odds row) ! j = (evens row ! j, odds row ! j)"
    using assms(2) lz by (intro nth_zip) (simp_all add: length_evens length_odds)
  also have "evens row ! j = row ! (2 * j)"
    using assms by (intro evens_nth) simp
  also have "odds row ! j = row ! (2 * j + 1)"
    using assms by (intro odds_nth) simp
  finally show ?thesis by simp
qed

lemma pack4_last_nth:
  assumes "length row = w" and "odd w"
  shows "projr (pack4_row row (int w)) ! (w div 2) = drop_bit 4 (row ! (w - 1))"
proof -
  have lz: "length (map (\<lambda>(a, b). (b AND 0xF0) OR drop_bit 4 a) (zip (evens row) (odds row))) = w div 2"
    using assms(1) by (simp add: length_evens length_odds)
  have ne: "row \<noteq> []" using assms by auto
  define ps where "ps = map (\<lambda>(a, b). (b AND 0xF0) OR drop_bit 4 a) (zip (evens row) (odds row))"
  have "projr (pack4_row row (int w)) = ps @ [drop_bit 4 (last row)]"
    unfolding pack4_row_eq[OF assms(1)] sum.sel ps_def using assms(2) by simp
  moreover have "length ps = w div 2" using lz by (simp only: ps_def)
  ultimately have "projr (pack4_row row (int w)) ! (w div 2) = drop_bit 4 (last row)"
    by (metis nth_append_length)
  then show ?thesis using ne assms(1) by (simp add: last_conv_nth)
qed


lemma pack4_byte_nth:
  assumes "length px = w * h" and "y < h"
  shows "j < w div 2 \<Longrightarrow>
           concat (map (\<lambda>y. projr (pack4_row (take w (drop (y * w) px)) (int w))) [0..<h])
             ! (y * ((w + 1) div 2) + j) =
           (px ! (y * w + 2 * j + 1) AND 0xF0) OR drop_bit 4 (px ! (y * w + 2 * j))"
    and "odd w \<Longrightarrow>
           concat (map (\<lambda>y. projr (pack4_row (take w (drop (y * w) px)) (int w))) [0..<h])
             ! (y * ((w + 1) div 2) + w div 2) =
           drop_bit 4 (px ! (y * w + (w - 1)))"
proof -
  let ?row = "take w (drop (y * w) px)"
  have len: "length ?row = w" using assms by (rule row_length)
  {
    assume j: "j < w div 2"
    then have k: "j < (w + 1) div 2" by simp
    have i0: "2 * j < w" and i1: "2 * j + 1 < w" using j by simp_all
    show "concat (map (\<lambda>y. projr (pack4_row (take w (drop (y * w) px)) (int w))) [0..<h])
             ! (y * ((w + 1) div 2) + j) =
           (px ! (y * w + 2 * j + 1) AND 0xF0) OR drop_bit 4 (px ! (y * w + 2 * j))"
      unfolding concat_rows_nth[OF assms k] pack4_pair_nth[OF len j]
        row_nth[OF assms i0] row_nth[OF assms i1] by (simp only: add.assoc)
  }
  {
    assume o: "odd w"
    then have k: "w div 2 < (w + 1) div 2" by presburger
    have i: "w - 1 < w" using o by (cases w) auto
    show "concat (map (\<lambda>y. projr (pack4_row (take w (drop (y * w) px)) (int w))) [0..<h])
             ! (y * ((w + 1) div 2) + w div 2) =
           drop_bit 4 (px ! (y * w + (w - 1)))"
      unfolding concat_rows_nth[OF assms k] pack4_last_nth[OF len o] row_nth[OF assms i] ..
  }
qed

text \<open>
  Claim C3. At 4 bits per pixel the packer works row by row: byte \<open>j\<close> of row \<open>y\<close>, for
  every pixel pair \<open>j\<close> of the row, is \<open>(second AND 0xF0) OR (first >> 4)\<close>, so that for
  8 bit pixels the high nibble is the top nibble of the second pixel and the low nibble
  the top nibble of the first; the 3 by 1 bitmap \<open>[0xF0, 0x00, 0xA0]\<close> packs to
  \<open>[0x0F, 0x0A]\<close>, two bytes.
\<close>

theorem pack4_per_row:
  assumes "length px = w * h" and "y < h" and "j < w div 2"
  shows "(\<exists>r. process_bitmap_buffer px 4 (int w) (int h) = Inr r
            \<and> length r = h * ((w + 1) div 2)
            \<and> r ! (y * ((w + 1) div 2) + j) =
                (px ! (y * w + 2 * j + 1) AND 0xF0) OR drop_bit 4 (px ! (y * w + 2 * j))
            \<and> (is_byte (px ! (y * w + 2 * j)) \<and> is_byte (px ! (y * w + 2 * j + 1)) \<longrightarrow>
                 drop_bit 4 (r ! (y * ((w + 1) div 2) + j)) = drop_bit 4 (px ! (y * w + 2 * j + 1))
                 \<and> r ! (y * ((w + 1) div 2) + j) AND 0x0F = drop_bit 4 (px ! (y * w + 2 * j))))
       \<and> process_bitmap_buffer [0xF0, 0x00, 0xA0] 4 3 1 = Inr [0x0F, 0x0A]
       \<and> length [0x0F, 0x0A :: int] = 2"
proof -
  let ?rows = "map (\<lambda>y. projr (pack4_row (take w (drop (y * w) px)) (int w))) [0..<h]"
  have r: "process_bitmap_buffer px 4 (int w) (int h) = Inr (concat ?rows)"
    using assms(1) by (rule pack4_result)
  have l: "length (concat ?rows) = h * ((w + 1) div 2)"
  proof -
    have "length (concat ?rows) = length ?rows * ((w + 1) div 2)"
      by (rule length_concat_uniform) (rule rows_uniform[OF assms(1)])
    then show ?thesis by simp
  qed
  have b: "concat ?rows ! (y * ((w + 1) div 2) + j) =
            (px ! (y * w + 2 * j + 1) AND 0xF0) OR drop_bit 4 (px ! (y * w + 2 * j))"
    using assms by (rule pack4_byte_nth(1))
  have n: "is_byte (px ! (y * w + 2 * j)) \<and> is_byte (px ! (y * w + 2 * j + 1)) \<longrightarrow>
       drop_bit 4 (concat ?rows ! (y * ((w + 1) div 2) + j)) = drop_bit 4 (px ! (y * w + 2 * j + 1))
       \<and> concat ?rows ! (y * ((w + 1) div 2) + j) AND 0x0F = drop_bit 4 (px ! (y * w + 2 * j))"
    unfolding b using nibbles_pair by blast
  have e: "process_bitmap_buffer [0xF0, 0x00, 0xA0] 4 3 1 = Inr [0x0F, 0x0A]" by code_simp
  have "\<exists>r. process_bitmap_buffer px 4 (int w) (int h) = Inr r
            \<and> length r = h * ((w + 1) div 2)
            \<and> r ! (y * ((w + 1) div 2) + j) =
                (px ! (y * w + 2 * j + 1) AND 0xF0) OR drop_bit 4 (px ! (y * w + 2 * j))
            \<and> (is_byte (px ! (y * w + 2 * j)) \<and> is_byte (px ! (y * w + 2 * j + 1)) \<longrightarrow>
                 drop_bit 4 (r ! (y * ((w + 1) div 2) + j)) = drop_bit 4 (px ! (y * w + 2 * j + 1))
                 \<and> r ! (y * ((w + 1) div 2) + j) AND 0x0F = drop_bit 4 (px ! (y * w + 2 * j)))"
    by (rule exI[of _ "concat ?rows"]) (intro conjI r l b n)
  then show ?thesis using e by (intro conjI) simp_all
qed

theorem pack4_per_row_witness:
  "length [0x10, 0x20, 0x30, 0x40, 0x50, 0x60 :: int] = 3 * 2 \<and> (1::nat) < 2 \<and> (0::nat) < 3 div 2
   \<and> process_bitmap_buffer [0x10, 0x20, 0x30, 0x40, 0x50, 0x60] 4 3 2 = Inr [0x21, 0x03, 0x54, 0x06]
   \<and> [0x21, 0x03, 0x54, 0x06 :: int] ! (1 * ((3 + 1) div 2) + 0) = (0x50 AND 0xF0) OR drop_bit 4 0x40"
proof -
  have len: "length [0x10, 0x20, 0x30, 0x40, 0x50, 0x60 :: int] = 3 * 2" by simp
  have y: "(1::nat) < 2" by simp
  have j: "(0::nat) < 3 div 2" by simp
  have e: "process_bitmap_buffer [0x10, 0x20, 0x30, 0x40, 0x50, 0x60] 4 3 2
             = Inr [0x21, 0x03, 0x54, 0x06]" by code_simp
  show ?thesis
    using pack4_per_row[OF len y j] e by simp
qed

text \<open>
  Claim C2, as stated, fails: the byte emitted for the unpaired pixel \<open>0xA0\<close> of a row of
  width 1 is \<open>0x0A\<close>, whose low nibble is \<open>0xA\<close>, not zero.
\<close>

theorem pack4_odd_low_nibble_counterexample:
  "process_bitmap_buffer [0xA0] 4 1 1 = Inr [0x0A] \<and> (0x0A :: int) AND 0x0F \<noteq> 0"
  by code_simp

text \<open>
  Claim C2, amended. At 4 bits per pixel, in every row of odd width the final unpaired
  pixel is emitted alone in one byte, \<open>pixel >> 4\<close>: for an 8 bit pixel the top nibble of
  the pixel is the low nibble of the byte, and the high nibble of the byte is zero.
\<close>

theorem pack4_odd_width_last_pixel:
  assumes "length px = w * h" and "odd w" and "y < h"
  shows "\<exists>r. process_bitmap_buffer px 4 (int w) (int h) = Inr r
            \<and> r ! (y * ((w + 1) div 2) + w div 2) = drop_bit 4 (px ! (y * w + (w - 1)))
            \<and> (is_byte (px ! (y * w + (w - 1))) \<longrightarrow>
                 r ! (y * ((w + 1) div 2) + w div 2) AND 0x0F = drop_bit 4 (px ! (y * w + (w - 1)))
                 \<and> drop_bit 4 (r ! (y * ((w + 1) div 2) + w div 2)) = 0)"
proof -
  let ?rows = "map (\<lambda>y. projr (pack4_row (take w (drop (y * w) px)) (int w))) [0..<h]"
  have r: "process_bitmap_buffer px 4 (int w) (int h) = Inr (concat ?rows)"
    using assms(1) by (rule pack4_result)
  have b: "concat ?rows ! (y * ((w + 1) div 2) + w div 2) = drop_bit 4 (px ! (y * w + (w - 1)))"
    using assms(1,3,2) by (rule pack4_byte_nth(2))
  have n: "is_byte (px ! (y * w + (w - 1))) \<longrightarrow>
       concat ?rows ! (y * ((w + 1) div 2) + w div 2) AND 0x0F = drop_bit 4 (px ! (y * w + (w - 1)))
       \<and> drop_bit 4 (concat ?rows ! (y * ((w + 1) div 2) + w div 2)) = 0"
    unfolding b using nibbles_last by blast
  show ?thesis
    by (rule exI[of _ "concat ?rows"]) (intro conjI r b n)
qed

theorem pack4_odd_width_last_pixel_witness:
  "length [0x10, 0x20, 0x30, 0x40, 0x50, 0x60 :: int] = 3 * 2 \<and> odd (3::nat) \<and> (1::nat) < 2
   \<and> process_bitmap_buffer [0x10, 0x20, 0x30, 0x40, 0x50, 0x60] 4 3 2 = Inr [0x21, 0x03, 0x54, 0x06]
   \<and> [0x21, 0x03, 0x54, 0x06 :: int] ! (1 * ((3 + 1) div 2) + 3 div 2) = drop_bit 4 0x60"
proof -
  have len: "length [0x10, 0x20, 0x30, 0x40, 0x50, 0x60 :: int] = 3 * 2" by simp
  have o: "odd (3::nat)" by simp
  have y: "(1::nat) < 2" by simp
  have e: "process_bitmap_buffer [0x10, 0x20, 0x30, 0x40, 0x50, 0x60] 4 3 2
             = Inr [0x21, 0x03, 0x54, 0x06]" by code_simp
  show ?thesis
    using pack4_odd_width_last_pixel[OF len o y] e by simp
qed

section \<open>Round trip through the reference unpackers\<close>

lemma top_bits_zero: "top_bits n 0 = 0"
  by (simp add: top_bits_def)

lemma unpack1_result:
  assumes "list_all is_byte px"
  shows "concat (map ref_unpack1_byte (map (\<lambda>c. projr (pack1_byte c)) (chunks 8 (pad_to 8 px))))
           = map (top_bits 1) (pad_to 8 px)"
proof -
  have "concat (map ref_unpack1_byte (map (\<lambda>c. projr (pack1_byte c)) (chunks 8 (pad_to 8 px))))
          = map (top_bits 1) (concat (chunks 8 (pad_to 8 px)))"
  proof (rule map_concat_chunks)
    fix c assume c: "c \<in> set (chunks 8 (pad_to 8 px))"
    have "length c = 8" using c by (intro chunks_padded(2)) simp_all
    moreover have "list_all is_byte c"
      using is_byte_pad[OF assms] c by (rule is_byte_chunk)
    ultimately show "ref_unpack1_byte (projr (pack1_byte c)) = map (top_bits 1) c"
      by (rule unpack1_pack1)
  qed
  then show ?thesis by (simp add: chunks_padded(3))
qed

lemma unpack2_result:
  assumes "list_all is_byte px"
  shows "concat (map ref_unpack2_byte (map (\<lambda>c. projr (pack2_byte c)) (chunks 4 (pad_to 4 px))))
           = map (top_bits 2) (pad_to 4 px)"
proof -
  have "concat (map ref_unpack2_byte (map (\<lambda>c. projr (pack2_byte c)) (chunks 4 (pad_to 4 px))))
          = map (top_bits 2) (concat (chunks 4 (pad_to 4 px)))"
  proof (rule map_concat_chunks)
    fix c assume c: "c \<in> set (chunks 4 (pad_to 4 px))"
    have "length c = 4" using c by (intro chunks_padded(2)) simp_all
    moreover have "list_all is_byte c"
      using is_byte_pad[OF assms] c by (rule is_byte_chunk)
    ultimately show "ref_unpack2_byte (projr (pack2_byte c)) = map (top_bits 2) c"
      by (rule unpack2_pack2)
  qed
  then show ?thesis by (simp add: chunks_padded(3))
qed

lemma map_top_pad:
  "0 < n \<Longrightarrow> map (top_bits b) (pad_to n px) =
     map (top_bits b) px @ replicate (n * ((length px + n - 1) div n) - length px) 0"
  by (simp add: pad_to_eq top_bits_zero mult.commute)

lemma concat_map_concat:
  "concat (map f (concat xss)) = concat (map (\<lambda>xs. concat (map f xs)) xss)"
  by (induction xss) auto

lemma unpack4_result:
  assumes "length px = w * h" and "list_all is_byte px"
  shows "concat (map ref_unpack4_byte
           (concat (map (\<lambda>y. projr (pack4_row (take w (drop (y * w) px)) (int w))) [0..<h])))
         = concat (map (\<lambda>y. map (top_bits 4) (take w (drop (y * w) px)) @ replicate (w mod 2) 0)
                     [0..<h])"
proof -
  have row: "concat (map ref_unpack4_byte (projr (pack4_row (take w (drop (y * w) px)) (int w))))
      = map (top_bits 4) (take w (drop (y * w) px)) @ replicate (w mod 2) 0" if "y < h" for y
  proof -
    let ?row = "take w (drop (y * w) px)"
    have len: "length ?row = w" using assms(1) that by (rule row_length)
    have "set ?row \<subseteq> set px" using set_take_subset set_drop_subset by fastforce
    then have bs: "list_all is_byte ?row" using assms(2) by (auto simp: list_all_iff)
    show ?thesis
      using unpack4_row[OF bs] unfolding pack4_row_eq[OF len] sum.sel len .
  qed
  have "concat (map ref_unpack4_byte
           (concat (map (\<lambda>y. projr (pack4_row (take w (drop (y * w) px)) (int w))) [0..<h])))
        = concat (map (\<lambda>y. concat (map ref_unpack4_byte
             (projr (pack4_row (take w (drop (y * w) px)) (int w))))) [0..<h])"
    by (simp add: concat_map_concat comp_def)
  also have "\<dots> = concat (map (\<lambda>y. map (top_bits 4) (take w (drop (y * w) px))
                          @ replicate (w mod 2) 0) [0..<h])"
    by (rule arg_cong[where f = concat], rule map_cong) (simp_all add: row)
  finally show ?thesis .
qed

lemma ref_unpack_simps:
  "ref_unpack 1 bs = concat (map ref_unpack1_byte bs)"
  "ref_unpack 2 bs = concat (map ref_unpack2_byte bs)"
  "ref_unpack 4 bs = concat (map ref_unpack4_byte bs)"
  "ref_unpack 8 bs = bs"
  by (simp_all add: ref_unpack_def)

lemma round_trip1:
  assumes "list_all is_byte px"
  shows "\<exists>r. process_bitmap_buffer px 1 wd ht = Inr r
            \<and> ref_unpack 1 r = map (top_bits 1) px @ replicate (8 * length r - length px) 0"
proof -
  let ?r = "map (\<lambda>c. projr (pack1_byte c)) (chunks 8 (pad_to 8 px))"
  have l: "length ?r = (length px + 8 - 1) div 8"
    by (simp only: length_map length_chunks_padded zero_less_numeral)
  have "ref_unpack 1 ?r = map (top_bits 1) px @ replicate (8 * length ?r - length px) 0"
    unfolding ref_unpack_simps unpack1_result[OF assms] l by (rule map_top_pad) simp
  then show ?thesis using pack1_result by blast
qed

lemma round_trip2:
  assumes "list_all is_byte px"
  shows "\<exists>r. process_bitmap_buffer px 2 wd ht = Inr r
            \<and> ref_unpack 2 r = map (top_bits 2) px @ replicate (4 * length r - length px) 0"
proof -
  let ?r = "map (\<lambda>c. projr (pack2_byte c)) (chunks 4 (pad_to 4 px))"
  have l: "length ?r = (length px + 4 - 1) div 4"
    by (simp only: length_map length_chunks_padded zero_less_numeral)
  have "ref_unpack 2 ?r = map (top_bits 2) px @ replicate (4 * length ?r - length px) 0"
    unfolding ref_unpack_simps unpack2_result[OF assms] l by (rule map_top_pad) simp
  then show ?thesis using pack2_result by blast
qed

lemma round_trip4:
  assumes "length px = w * h" and "list_all is_byte px"
  shows "\<exists>r. process_bitmap_buffer px 4 (int w) (int h) = Inr r
            \<and> ref_unpack 4 r =
                concat (map (\<lambda>y. map (top_bits 4) (take w (drop (y * w) px))
                                  @ replicate (w mod 2) 0) [0..<h])"
  using pack4_result[OF assms(1)] unpack4_result[OF assms]
  unfolding ref_unpack_simps by blast

text \<open>
  Claim C6. For a buffer of \<open>w * h\<close> 8 bit pixels and each depth 1, 2, 4 and 8, the packer
  returns a buffer that the reference unpacker of that depth reads back as the top bits
  of every pixel, in order, with every padding pixel read as 0: the padding follows the
  last pixel at 1 and 2 bits per pixel and closes each odd row at 4 bits per pixel.
\<close>

theorem pack_round_trip:
  assumes "length px = w * h" and "list_all is_byte px"
  shows "(\<exists>r. process_bitmap_buffer px 1 (int w) (int h) = Inr r
            \<and> ref_unpack 1 r = map (top_bits 1) px @ replicate (8 * length r - w * h) 0)
       \<and> (\<exists>r. process_bitmap_buffer px 2 (int w) (int h) = Inr r
            \<and> ref_unpack 2 r = map (top_bits 2) px @ replicate (4 * length r - w * h) 0)
       \<and> (\<exists>r. process_bitmap_buffer px 4 (int w) (int h) = Inr r
            \<and> ref_unpack 4 r =
                concat (map (\<lambda>y. map (top_bits 4) (take w (drop (y * w) px))
                                  @ replicate (w mod 2) 0) [0..<h]))
       \<and> (\<exists>r. process_bitmap_buffer px 8 (int w) (int h) = Inr r
            \<and> ref_unpack 8 r = map (top_bits 8) px)"
proof (intro conjI)
  show "\<exists>r. process_bitmap_buffer px 1 (int w) (int h) = Inr r
            \<and> ref_unpack 1 r = map (top_bits 1) px @ replicate (8 * length r - w * h) 0"
    using round_trip1[OF assms(2), of "int w" "int h"] unfolding assms(1) .
  show "\<exists>r. process_bitmap_buffer px 2 (int w) (int h) = Inr r
            \<and> ref_unpack 2 r = map (top_bits 2) px @ replicate (4 * length r - w * h) 0"
    using round_trip2[OF assms(2), of "int w" "int h"] unfolding assms(1) .
  show "\<exists>r. process_bitmap_buffer px 4 (int w) (int h) = Inr r
            \<and> ref_unpack 4 r =
                concat (map (\<lambda>y. map (top_bits 4) (take w (drop (y * w) px))
                                  @ replicate (w mod 2) 0) [0..<h])"
    using assms by (rule round_trip4)
  show "\<exists>r. process_bitmap_buffer px 8 (int w) (int h) = Inr r
            \<and> ref_unpack 8 r = map (top_bits 8) px"
  proof -
    have "map (top_bits 8) px = px" by (induction px) (simp_all add: top_bits_def)
    then show ?thesis by (simp add: process_bitmap_buffer_def ref_unpack_def)
  qed
qed

theorem pack_round_trip_witness:
  "length [0xF0, 0x00, 0xA0 :: int] = 3 * 1 \<and> list_all is_byte [0xF0, 0x00, 0xA0]
   \<and> process_bitmap_buffer [0xF0, 0x00, 0xA0] 1 3 1 = Inr [0xA0]
   \<and> ref_unpack 1 [0xA0] = [1, 0, 1] @ replicate 5 0
   \<and> process_bitmap_buffer [0xF0, 0x00, 0xA0] 2 3 1 = Inr [0xC8]
   \<and> ref_unpack 2 [0xC8] = [3, 0, 2] @ replicate 1 0
   \<and> process_bitmap_buffer [0xF0, 0x00, 0xA0] 4 3 1 = Inr [0x0F, 0x0A]
   \<and> ref_unpack 4 [0x0F, 0x0A] = [0xF, 0x0, 0xA] @ replicate 1 0"
proof -
  have len: "length [0xF0, 0x00, 0xA0 :: int] = 3 * 1" by simp
  have bs: "list_all is_byte [0xF0, 0x00, 0xA0]" by (simp add: is_byte_def)
  have e1: "process_bitmap_buffer [0xF0, 0x00, 0xA0] 1 3 1 = Inr [0xA0]" by code_simp
  have e2: "process_bitmap_buffer [0xF0, 0x00, 0xA0] 2 3 1 = Inr [0xC8]" by code_simp
  have e4: "process_bitmap_buffer [0xF0, 0x00, 0xA0] 4 3 1 = Inr [0x0F, 0x0A]" by code_simp
  have t: "map (top_bits 1) [0xF0, 0x00, 0xA0] = [1, 0, 1]"
    "map (top_bits 2) [0xF0, 0x00, 0xA0] = [3, 0, 2]"
    "map (top_bits 4) [0xF0, 0x00, 0xA0] = [0xF, 0x0, 0xA]"
    by (simp_all add: top_bits_def drop_bit_eq_div)
  show ?thesis
    using pack_round_trip[OF len bs] len bs e1 e2 e4 t by simp
qed

section \<open>Inversion and packing\<close>

lemma nat_cases8:
  obtains "n = 0" | "n = 1" | "n = 2" | "n = 3" | "n = 4" | "n = 5" | "n = 6" | "n = (7::nat)"
        | "8 \<le> n"
  by linarith

lemma invert_pack1_bits:
  fixes a b c d e f g h :: int
  shows "((a XOR 0xFF) AND 0x80)
          OR (drop_bit 1 ((b XOR 0xFF) AND 0x80))
          OR (drop_bit 2 ((c XOR 0xFF) AND 0x80))
          OR (drop_bit 3 ((d XOR 0xFF) AND 0x80))
          OR (drop_bit 4 ((e XOR 0xFF) AND 0x80))
          OR (drop_bit 5 ((f XOR 0xFF) AND 0x80))
          OR (drop_bit 6 ((g XOR 0xFF) AND 0x80))
          OR (drop_bit 7 ((h XOR 0xFF) AND 0x80))
       = ((a AND 0x80)
          OR (drop_bit 1 (b AND 0x80))
          OR (drop_bit 2 (c AND 0x80))
          OR (drop_bit 3 (d AND 0x80))
          OR (drop_bit 4 (e AND 0x80))
          OR (drop_bit 5 (f AND 0x80))
          OR (drop_bit 6 (g AND 0x80))
          OR (drop_bit 7 (h AND 0x80))) XOR 0xFF"
proof (rule bit_eqI)
  fix n
  show "bit (((a XOR 0xFF) AND 0x80)
          OR (drop_bit 1 ((b XOR 0xFF) AND 0x80))
          OR (drop_bit 2 ((c XOR 0xFF) AND 0x80))
          OR (drop_bit 3 ((d XOR 0xFF) AND 0x80))
          OR (drop_bit 4 ((e XOR 0xFF) AND 0x80))
          OR (drop_bit 5 ((f XOR 0xFF) AND 0x80))
          OR (drop_bit 6 ((g XOR 0xFF) AND 0x80))
          OR (drop_bit 7 ((h XOR 0xFF) AND 0x80))) n
       = bit (((a AND 0x80)
          OR (drop_bit 1 (b AND 0x80))
          OR (drop_bit 2 (c AND 0x80))
          OR (drop_bit 3 (d AND 0x80))
          OR (drop_bit 4 (e AND 0x80))
          OR (drop_bit 5 (f AND 0x80))
          OR (drop_bit 6 (g AND 0x80))
          OR (drop_bit 7 (h AND 0x80))) XOR 0xFF) n"
    by (cases n rule: nat_cases8) (simp_all only: pack_bits, simp_all)
qed


lemma invert_pack2_bits:
  fixes a b c d :: int
  shows "((a XOR 0xFF) AND 0xC0)
          OR (drop_bit 2 ((b XOR 0xFF) AND 0xC0))
          OR (drop_bit 4 ((c XOR 0xFF) AND 0xC0))
          OR (drop_bit 6 ((d XOR 0xFF) AND 0xC0))
       = ((a AND 0xC0)
          OR (drop_bit 2 (b AND 0xC0))
          OR (drop_bit 4 (c AND 0xC0))
          OR (drop_bit 6 (d AND 0xC0))) XOR 0xFF"
proof (rule bit_eqI)
  fix n
  show "bit (((a XOR 0xFF) AND 0xC0)
          OR (drop_bit 2 ((b XOR 0xFF) AND 0xC0))
          OR (drop_bit 4 ((c XOR 0xFF) AND 0xC0))
          OR (drop_bit 6 ((d XOR 0xFF) AND 0xC0))) n
       = bit (((a AND 0xC0)
          OR (drop_bit 2 (b AND 0xC0))
          OR (drop_bit 4 (c AND 0xC0))
          OR (drop_bit 6 (d AND 0xC0))) XOR 0xFF) n"
    by (cases n rule: nat_cases8) (simp_all only: pack_bits, simp_all)
qed

lemma invert_pack4_bits:
  assumes "is_byte a"
  shows "((b XOR 0xFF) AND 0xF0) OR drop_bit 4 (a XOR 0xFF)
           = ((b AND 0xF0) OR drop_bit 4 a) XOR 0xFF"
proof (rule bit_eqI)
  fix n
  have hi: "\<not> bit a (4 + n)" if "4 \<le> n" for n
    using byte_bit_less[OF assms, of "4 + n"] that by auto
  show "bit (((b XOR 0xFF) AND 0xF0) OR drop_bit 4 (a XOR 0xFF)) n
          = bit (((b AND 0xF0) OR drop_bit 4 a) XOR 0xFF) n"
  proof (cases "4 \<le> n")
    case True
    then show ?thesis using hi[OF True] by (simp only: pack_bits) auto
  next
    case False
    then show ?thesis by (simp only: pack_bits) auto
  qed
qed

lemma invert_pack1_byte:
  assumes "length xs = 8"
  shows "projr (pack1_byte (invert_pixels xs)) = projr (pack1_byte xs) XOR 0xFF"
proof -
  obtain a b c d e f g h where xs: "xs = [a, b, c, d, e, f, g, h]"
    using assms(1) by (auto simp: length_Suc_conv numeral_eq_Suc)
  show ?thesis
    unfolding xs invert_pixels_def
    by (simp only: pack1_byte.simps sum.sel list.map invert_pack1_bits)
qed

lemma invert_pack2_byte:
  assumes "length xs = 4"
  shows "projr (pack2_byte (invert_pixels xs)) = projr (pack2_byte xs) XOR 0xFF"
proof -
  obtain a b c d where xs: "xs = [a, b, c, d]"
    using assms(1) by (auto simp: length_Suc_conv numeral_eq_Suc)
  show ?thesis
    unfolding xs invert_pixels_def
    by (simp only: pack2_byte.simps sum.sel list.map invert_pack2_bits)
qed

lemma chunks_map: "chunks n (map f xs) = map (map f) (chunks n xs)"
  by (simp add: chunks_def take_map drop_map)

lemma pad_to_exact: "length xs mod n = 0 \<Longrightarrow> pad_to n xs = xs"
  by (simp add: pad_to_def)

lemma chunks_exact_length:
  fixes xs :: "int list"
  assumes "0 < n" and "length xs mod n = 0" and "c \<in> set (chunks n xs)"
  shows "length c = n"
  using chunks_padded(2)[OF assms(1), of c xs] assms(2,3) by (simp add: pad_to_exact)

lemma invert_pack1:
  assumes "length px mod 8 = 0"
  shows "process_bitmap_buffer (invert_pixels px) 1 wd ht =
           Inr (invert_pixels (projr (process_bitmap_buffer px 1 wd ht)))"
proof -
  have l: "length (invert_pixels px) mod 8 = 0" using assms by (simp add: invert_pixels_def)
  have "map (\<lambda>c. projr (pack1_byte c)) (chunks 8 (invert_pixels px))
          = invert_pixels (map (\<lambda>c. projr (pack1_byte c)) (chunks 8 px))"
  proof -
    have "map (\<lambda>c. projr (pack1_byte c)) (map invert_pixels (chunks 8 px))
            = map (\<lambda>c. projr (pack1_byte c) XOR 0xFF) (chunks 8 px)"
      unfolding map_map
    proof (rule map_cong[OF refl])
      fix c assume "c \<in> set (chunks 8 px)"
      then have "length c = 8" using assms by (intro chunks_exact_length) simp_all
      then show "((\<lambda>c. projr (pack1_byte c)) \<circ> invert_pixels) c = projr (pack1_byte c) XOR 0xFF"
        by (simp add: invert_pack1_byte)
    qed
    moreover have "chunks 8 (invert_pixels px) = map invert_pixels (chunks 8 px)"
      unfolding invert_pixels_def chunks_map
      by (rule map_cong[OF refl]) (simp add: invert_pixels_def)
    ultimately show ?thesis by (simp add: invert_pixels_def comp_def)
  qed
  then show ?thesis
    unfolding pack1_result pad_to_exact[OF assms] pad_to_exact[OF l] sum.sel by simp
qed

lemma invert_pack2:
  assumes "length px mod 4 = 0"
  shows "process_bitmap_buffer (invert_pixels px) 2 wd ht =
           Inr (invert_pixels (projr (process_bitmap_buffer px 2 wd ht)))"
proof -
  have l: "length (invert_pixels px) mod 4 = 0" using assms by (simp add: invert_pixels_def)
  have "map (\<lambda>c. projr (pack2_byte c)) (chunks 4 (invert_pixels px))
          = invert_pixels (map (\<lambda>c. projr (pack2_byte c)) (chunks 4 px))"
  proof -
    have "map (\<lambda>c. projr (pack2_byte c)) (map invert_pixels (chunks 4 px))
            = map (\<lambda>c. projr (pack2_byte c) XOR 0xFF) (chunks 4 px)"
      unfolding map_map
    proof (rule map_cong[OF refl])
      fix c assume "c \<in> set (chunks 4 px)"
      then have "length c = 4" using assms by (intro chunks_exact_length) simp_all
      then show "((\<lambda>c. projr (pack2_byte c)) \<circ> invert_pixels) c = projr (pack2_byte c) XOR 0xFF"
        by (simp add: invert_pack2_byte)
    qed
    moreover have "chunks 4 (invert_pixels px) = map invert_pixels (chunks 4 px)"
      unfolding invert_pixels_def chunks_map
      by (rule map_cong[OF refl]) (simp add: invert_pixels_def)
    ultimately show ?thesis by (simp add: invert_pixels_def comp_def)
  qed
  then show ?thesis
    unfolding pack2_result pad_to_exact[OF assms] pad_to_exact[OF l] sum.sel by simp
qed


lemma evens_map: "evens (map f xs) = map f (evens xs)"
  by (induction xs rule: evens.induct) simp_all

lemma odds_map: "odds (map f xs) = map f (odds xs)"
  by (induction xs rule: odds.induct) simp_all

lemma set_evens: "set (evens xs) \<subseteq> set xs"
  by (induction xs rule: evens.induct) auto

lemma invert_pack4_row:
  assumes "length row = w" and "even w" and "list_all is_byte row"
  shows "projr (pack4_row (invert_pixels row) (int w))
           = invert_pixels (projr (pack4_row row (int w)))"
proof -
  have l: "length (invert_pixels row) = w" using assms(1) by (simp add: invert_pixels_def)
  have pair: "(\<lambda>(a, b). (b AND 0xF0) OR drop_bit 4 a) (x XOR 0xFF, y XOR 0xFF)
                = ((\<lambda>(a, b). (b AND 0xF0) OR drop_bit 4 a) (x, y)) XOR 0xFF"
    if "(x, y) \<in> set (zip (evens row) (odds row))" for x y
  proof -
    have "x \<in> set row" using that set_evens[of row] by (auto dest: set_zip_leftD)
    then have "is_byte x" using assms(3) by (simp add: list_all_iff)
    then show ?thesis by (simp only: prod.case invert_pack4_bits)
  qed
  have "map (\<lambda>(a, b). (b AND 0xF0) OR drop_bit 4 a)
          (zip (evens (invert_pixels row)) (odds (invert_pixels row)))
        = map (\<lambda>p. (\<lambda>(a, b). (b AND 0xF0) OR drop_bit 4 a) (fst p XOR 0xFF, snd p XOR 0xFF))
            (zip (evens row) (odds row))"
    unfolding invert_pixels_def evens_map odds_map zip_map_map map_map
    by (rule map_cong[OF refl]) (simp add: case_prod_beta)
  also have "\<dots> = map (\<lambda>p. ((\<lambda>(a, b). (b AND 0xF0) OR drop_bit 4 a) p) XOR 0xFF)
                     (zip (evens row) (odds row))"
    by (rule map_cong[OF refl]) (use pair in \<open>auto simp: case_prod_beta\<close>)
  also have "\<dots> = invert_pixels (map (\<lambda>(a, b). (b AND 0xF0) OR drop_bit 4 a)
                                     (zip (evens row) (odds row)))"
    by (simp add: invert_pixels_def comp_def)
  finally show ?thesis
    unfolding pack4_row_eq[OF l] pack4_row_eq[OF assms(1)] sum.sel using assms(2) by simp
qed

lemma invert_pack4:
  assumes "length px = w * h" and "even w" and "list_all is_byte px"
  shows "process_bitmap_buffer (invert_pixels px) 4 (int w) (int h) =
           Inr (invert_pixels (projr (process_bitmap_buffer px 4 (int w) (int h))))"
proof -
  have l: "length (invert_pixels px) = w * h" using assms(1) by (simp add: invert_pixels_def)
  have row: "projr (pack4_row (take w (drop (y * w) (invert_pixels px))) (int w))
      = invert_pixels (projr (pack4_row (take w (drop (y * w) px)) (int w)))" if "y < h" for y
  proof -
    let ?row = "take w (drop (y * w) px)"
    have len: "length ?row = w" using assms(1) that by (rule row_length)
    have "set ?row \<subseteq> set px" using set_take_subset set_drop_subset by fastforce
    then have bs: "list_all is_byte ?row" using assms(3) by (auto simp: list_all_iff)
    have "take w (drop (y * w) (invert_pixels px)) = invert_pixels ?row"
      by (simp add: invert_pixels_def take_map drop_map)
    then show ?thesis using invert_pack4_row[OF len assms(2) bs] by simp
  qed
  have "concat (map (\<lambda>y. projr (pack4_row (take w (drop (y * w) (invert_pixels px))) (int w)))
                  [0..<h])
        = concat (map (\<lambda>y. invert_pixels (projr (pack4_row (take w (drop (y * w) px)) (int w))))
                  [0..<h])"
    by (rule arg_cong[where f = concat], rule map_cong) (simp_all add: row)
  also have "\<dots> = invert_pixels (concat (map (\<lambda>y. projr (pack4_row (take w (drop (y * w) px))
                                                    (int w))) [0..<h]))"
    by (simp add: invert_pixels_def map_concat comp_def)
  finally show ?thesis
    unfolding pack4_result[OF l] pack4_result[OF assms(1)] sum.sel by simp
qed

section \<open>Serialization\<close>

lemma bytes_Inr: "bytes xs = Inr ys \<Longrightarrow> ys = xs \<and> list_all is_byte xs"
  by (simp add: bytes_def split: if_splits)

text \<open>
  Claim C1, as stated, fails: for the 1 by 1 glyph with the pixel \<open>0xFF\<close> and inverse
  colours, the packed region of the serialization at 1 bit per pixel is \<open>[0x7F]\<close> (the
  padding bits are inverted too), while packing the inverted buffer gives \<open>[0x00]\<close>.
\<close>

theorem inverse_colors_counterexample:
  "to_bytes \<lparr>char = [63], width = 1, rows = 1, advance = 1, bearingX = 0, bearingY = 1,
             buf = [0xFF], num_grays = 256, inverse_colors = True\<rparr> 1
     = Inr [1, 1, 1, 0, 1, 0x7F]
   \<and> process_bitmap_buffer (invert_pixels [0xFF]) 1 1 1 = Inr [0x00]"
  by code_simp

text \<open>
  Claim C1, amended. For every glyph with inverse colours and a non-empty buffer, and
  every depth at which the serialization succeeds, the packed region of the
  serialization is the byte-wise XOR with \<open>0xFF\<close> of the packed original buffer: the
  packer runs on the untransformed buffer and the inversion is applied to every packed
  output byte. This is the packing of the inverted buffer whenever the packer adds no
  padding: at 8 bits per pixel, at 1 bit per pixel for a length that is a multiple of 8,
  at 2 bits per pixel for a multiple of 4, and at 4 bits per pixel for 8 bit pixels in
  rows of even width.
\<close>

theorem inverse_colors_packed_region:
  assumes "inverse_colors g" and "buf g \<noteq> []" and "to_bytes g b = Inr bs"
  shows "\<exists>packed. process_bitmap_buffer (buf g) b (width g) (rows g) = Inr packed
           \<and> drop 5 bs = invert_pixels packed
           \<and> (b = 8
                \<or> (b = 1 \<and> length (buf g) mod 8 = 0)
                \<or> (b = 2 \<and> length (buf g) mod 4 = 0)
                \<or> (b = 4 \<and> list_all is_byte (buf g)
                     \<and> (\<exists>w h. width g = int w \<and> rows g = int h
                               \<and> length (buf g) = w * h \<and> even w))
                \<longrightarrow>
                process_bitmap_buffer (invert_pixels (buf g)) b (width g) (rows g)
                  = Inr (drop 5 bs))"
proof -
  from assms(2,3) obtain packed where
    p: "process_bitmap_buffer (buf g) b (width g) (rows g) = Inr packed" and
    bs: "bytes ([width g, rows g, advance g, bearingX g, bearingY g]
                  @ map (process_byte g) packed) = Inr bs"
    by (auto simp: to_bytes_def Let_def split: sum.splits)
  have pb: "map (process_byte g) packed = invert_pixels packed"
    using assms(1) by (simp add: process_byte_def invert_pixels_def)
  have d: "drop 5 bs = invert_pixels packed"
    using bytes_Inr[OF bs] pb by simp
  have c8: "process_bitmap_buffer (invert_pixels (buf g)) b (width g) (rows g) = Inr (drop 5 bs)"
    if "b = 8"
    using p d that by (auto simp: process_bitmap_buffer_def)
  have c1: "process_bitmap_buffer (invert_pixels (buf g)) b (width g) (rows g) = Inr (drop 5 bs)"
    if "b = 1 \<and> length (buf g) mod 8 = 0"
  proof -
    have "process_bitmap_buffer (invert_pixels (buf g)) 1 (width g) (rows g) =
            Inr (invert_pixels (projr (process_bitmap_buffer (buf g) 1 (width g) (rows g))))"
      using that by (intro invert_pack1) simp
    then show ?thesis using that p d by simp
  qed
  have c2: "process_bitmap_buffer (invert_pixels (buf g)) b (width g) (rows g) = Inr (drop 5 bs)"
    if "b = 2 \<and> length (buf g) mod 4 = 0"
  proof -
    have "process_bitmap_buffer (invert_pixels (buf g)) 2 (width g) (rows g) =
            Inr (invert_pixels (projr (process_bitmap_buffer (buf g) 2 (width g) (rows g))))"
      using that by (intro invert_pack2) simp
    then show ?thesis using that p d by simp
  qed
  have c4: "process_bitmap_buffer (invert_pixels (buf g)) b (width g) (rows g) = Inr (drop 5 bs)"
    if "b = 4 \<and> list_all is_byte (buf g)
          \<and> (\<exists>w h. width g = int w \<and> rows g = int h \<and> length (buf g) = w * h \<and> even w)"
  proof -
    from that obtain w h where wh: "width g = int w" "rows g = int h"
      "length (buf g) = w * h" "even w" and b4: "b = 4" and byb: "list_all is_byte (buf g)"
      by blast
    have "process_bitmap_buffer (invert_pixels (buf g)) 4 (int w) (int h) =
            Inr (invert_pixels (projr (process_bitmap_buffer (buf g) 4 (int w) (int h))))"
      using wh(3,4) byb by (rule invert_pack4)
    then show ?thesis using p d unfolding b4 wh(1,2) by simp
  qed
  have "b = 8
          \<or> (b = 1 \<and> length (buf g) mod 8 = 0)
          \<or> (b = 2 \<and> length (buf g) mod 4 = 0)
          \<or> (b = 4 \<and> list_all is_byte (buf g)
               \<and> (\<exists>w h. width g = int w \<and> rows g = int h
                         \<and> length (buf g) = w * h \<and> even w))
          \<longrightarrow>
          process_bitmap_buffer (invert_pixels (buf g)) b (width g) (rows g) = Inr (drop 5 bs)"
    using c8 c1 c2 c4 by blast
  then show ?thesis using p d by blast
qed

theorem inverse_colors_packed_region_witness:
  "inverse_colors \<lparr>char = [63], width = 1, rows = 1, advance = 1, bearingX = 0, bearingY = 1,
             buf = [0xFF], num_grays = 256, inverse_colors = True\<rparr>
   \<and> to_bytes \<lparr>char = [63], width = 1, rows = 1, advance = 1, bearingX = 0, bearingY = 1,
             buf = [0xFF], num_grays = 256, inverse_colors = True\<rparr> 1
        = Inr [1, 1, 1, 0, 1, 0x7F]
   \<and> process_bitmap_buffer [0xFF] 1 1 1 = Inr [0x80]
   \<and> drop 5 [1, 1, 1, 0, 1, 0x7F] = invert_pixels [0x80]
   \<and> to_bytes \<lparr>char = [63], width = 2, rows = 1, advance = 3, bearingX = 0, bearingY = 1,
             buf = [0x10, 0x20], num_grays = 256, inverse_colors = True\<rparr> 4
        = Inr [2, 1, 3, 0, 1, 0xDE]
   \<and> list_all is_byte [0x10, 0x20] \<and> length [0x10, 0x20 :: int] = 2 * 1 \<and> even (2::nat)
   \<and> process_bitmap_buffer (invert_pixels [0x10, 0x20]) 4 2 1 = Inr [0xDE]"
proof -
  let ?g = "\<lparr>char = [63], width = 1, rows = 1, advance = 1, bearingX = 0, bearingY = 1,
             buf = [0xFF], num_grays = 256, inverse_colors = True\<rparr>"
  let ?k = "\<lparr>char = [63], width = 2, rows = 1, advance = 3, bearingX = 0, bearingY = 1,
             buf = [0x10, 0x20], num_grays = 256, inverse_colors = True\<rparr>"
  have i: "inverse_colors ?g" by simp
  have n: "buf ?g \<noteq> []" by simp
  have t: "to_bytes ?g 1 = Inr [1, 1, 1, 0, 1, 0x7F]" by code_simp
  have p: "process_bitmap_buffer [0xFF] 1 1 1 = Inr [0x80]" by code_simp
  have i': "inverse_colors ?k" by simp
  have n': "buf ?k \<noteq> []" by simp
  have t': "to_bytes ?k 4 = Inr [2, 1, 3, 0, 1, 0xDE]" by code_simp
  have bs: "list_all is_byte [0x10, 0x20]" by (simp add: is_byte_def)
  have wh: "\<exists>w h. width ?k = int w \<and> rows ?k = int h \<and> length (buf ?k) = w * h \<and> even w"
    by (rule exI[of _ 2], rule exI[of _ 1]) simp
  have "process_bitmap_buffer (invert_pixels [0x10, 0x20]) 4 2 1 = Inr [0xDE]"
    using inverse_colors_packed_region[OF i' n' t'] bs wh by simp blast
  then show ?thesis
    using inverse_colors_packed_region[OF i n t] i t p t' bs by simp
qed

lemma to_bytes_cases:
  "to_bytes g b =
     (case (if buf g \<noteq> [] then process_bitmap_buffer (buf g) b (width g) (rows g) else Inr []) of
        Inl e \<Rightarrow> Inl e
      | Inr packed \<Rightarrow>
          bytes ([width g, rows g, advance g, bearingX g, bearingY g]
                   @ map (process_byte g) packed))"
  by (simp add: to_bytes_def Let_def)

lemma from_face_blank:
  assumes "0 \<le> W" and "0 \<le> H"
  shows "from_face \<lparr>bitmap_width = W, bitmap_rows = H, bitmap_pitch = W,
                     bitmap_buffer = replicate (nat (W * H)) 0, bitmap_num_grays = 256,
                     metrics_width = 64 * W, metrics_height = 64 * H, horiAdvance = 64,
                     horiBearingX = 0, horiBearingY = 0\<rparr> [65] 0 False
         = Inr \<lparr>char = [65], width = W, rows = H, advance = 1, bearingX = 0, bearingY = 0,
                 buf = replicate (nat (W * H)) 0, num_grays = 256, inverse_colors = False\<rparr>"
  using assms by (simp add: from_face_def metrics_asserts_def discard_left_def modify_bearing_def)

text \<open>
  Claim C10. Extraction does not bound the width or the number of rows: a bitmap of any
  size \<open>W\<close> by \<open>H\<close> with metrics in range is extracted with these dimensions. A glyph
  whose width or rows exceeds 255 is never serialized: \<open>to_bytes\<close> raises, and when the
  packer itself does not raise the error is the ValueError of the byte conversion. So the
  header of every serialization that succeeds is the five values width, rows, advance,
  bearingX, bearingY, each in 0..255.
\<close>

theorem to_bytes_header_in_range:
  "(0 \<le> W \<and> 0 \<le> H \<longrightarrow>
      (\<exists>g. from_face \<lparr>bitmap_width = W, bitmap_rows = H, bitmap_pitch = W,
                     bitmap_buffer = replicate (nat (W * H)) 0, bitmap_num_grays = 256,
                     metrics_width = 64 * W, metrics_height = 64 * H, horiAdvance = 64,
                     horiBearingX = 0, horiBearingY = 0\<rparr> [65] 0 False = Inr g
            \<and> width g = W \<and> rows g = H))
   \<and> (255 < width g \<or> 255 < rows g \<longrightarrow>
        to_bytes g b =
          (case (if buf g \<noteq> [] then process_bitmap_buffer (buf g) b (width g) (rows g)
                 else Inr []) of
             Inl e \<Rightarrow> Inl e
           | Inr packed \<Rightarrow> Inl ValueError))
   \<and> (to_bytes g b = Inr bs \<longrightarrow>
        5 \<le> length bs
        \<and> take 5 bs = [width g, rows g, advance g, bearingX g, bearingY g]
        \<and> list_all is_byte (take 5 bs))"
proof (intro conjI impI)
  assume "0 \<le> W \<and> 0 \<le> H"
  then show "\<exists>g. from_face \<lparr>bitmap_width = W, bitmap_rows = H, bitmap_pitch = W,
                     bitmap_buffer = replicate (nat (W * H)) 0, bitmap_num_grays = 256,
                     metrics_width = 64 * W, metrics_height = 64 * H, horiAdvance = 64,
                     horiBearingX = 0, horiBearingY = 0\<rparr> [65] 0 False = Inr g
            \<and> width g = W \<and> rows g = H"
    using from_face_blank[of W H] by simp
next
  assume big: "255 < width g \<or> 255 < rows g"
  have "bytes ([width g, rows g, advance g, bearingX g, bearingY g] @ xs) = Inl ValueError" for xs
    using big by (auto simp: bytes_def is_byte_def)
  then show "to_bytes g b =
          (case (if buf g \<noteq> [] then process_bitmap_buffer (buf g) b (width g) (rows g)
                 else Inr []) of
             Inl e \<Rightarrow> Inl e
           | Inr packed \<Rightarrow> Inl ValueError)"
    unfolding to_bytes_cases by (simp split: sum.splits)
next
  assume ok: "to_bytes g b = Inr bs"
  then obtain packed where
    "bytes ([width g, rows g, advance g, bearingX g, bearingY g]
              @ map (process_byte g) packed) = Inr bs"
    unfolding to_bytes_cases by (auto split: sum.splits)
  from bytes_Inr[OF this]
  have bs: "bs = [width g, rows g, advance g, bearingX g, bearingY g] @ map (process_byte g) packed"
    and r: "list_all is_byte ([width g, rows g, advance g, bearingX g, bearingY g]
                                 @ map (process_byte g) packed)"
    by simp_all
  show "5 \<le> length bs" using bs by simp
  show "take 5 bs = [width g, rows g, advance g, bearingX g, bearingY g]" using bs by simp
  show "list_all is_byte (take 5 bs)" using bs r by simp
qed

theorem to_bytes_header_in_range_witness:
  "(0::int) \<le> 300 \<and> (0::int) \<le> 1
   \<and> from_face \<lparr>bitmap_width = 300, bitmap_rows = 1, bitmap_pitch = 300,
                   bitmap_buffer = replicate (nat (300 * 1)) 0, bitmap_num_grays = 256,
                   metrics_width = 64 * 300, metrics_height = 64 * 1, horiAdvance = 64,
                   horiBearingX = 0, horiBearingY = 0\<rparr> [65] 0 False
        = Inr \<lparr>char = [65], width = 300, rows = 1, advance = 1, bearingX = 0, bearingY = 0,
                 buf = replicate (nat (300 * 1)) 0, num_grays = 256, inverse_colors = False\<rparr>
   \<and> 255 < width \<lparr>char = [65], width = 300, rows = 1, advance = 1, bearingX = 0, bearingY = 0,
                    buf = replicate 300 0, num_grays = 256, inverse_colors = False\<rparr>
   \<and> to_bytes \<lparr>char = [65], width = 300, rows = 1, advance = 1, bearingX = 0, bearingY = 0,
                 buf = replicate 300 0, num_grays = 256, inverse_colors = False\<rparr> 8
        = Inl ValueError
   \<and> to_bytes \<lparr>char = [65], width = 2, rows = 1, advance = 3, bearingX = 0, bearingY = 1,
                 buf = [0x10, 0x20], num_grays = 256, inverse_colors = False\<rparr> 4
        = Inr [2, 1, 3, 0, 1, 0x21]"
proof -
  let ?big = "\<lparr>char = [65], width = 300, rows = 1, advance = 1, bearingX = 0, bearingY = 0,
                 buf = replicate 300 0, num_grays = 256, inverse_colors = False\<rparr>"
  let ?ok = "\<lparr>char = [65], width = 2, rows = 1, advance = 3, bearingX = 0, bearingY = 1,
                 buf = [0x10, 0x20], num_grays = 256, inverse_colors = False\<rparr>"
  have t: "to_bytes ?ok 4 = Inr [2, 1, 3, 0, 1, 0x21]" by code_simp
  have p: "process_bitmap_buffer (replicate 300 0) 8 300 1 = Inr (replicate 300 0)"
    by (simp add: process_bitmap_buffer_def)
  have "to_bytes ?big 8 = Inl ValueError"
    using to_bytes_header_in_range[of 300 1 ?big 8 "[]"] p by simp
  moreover have "take 5 [2, 1, 3, 0, 1, 0x21 :: int] = [2, 1, 3, 0, 1]"
    using to_bytes_header_in_range[of 300 1 ?ok 4 "[2, 1, 3, 0, 1, 0x21]"] t by simp
  moreover have "from_face \<lparr>bitmap_width = 300, bitmap_rows = 1, bitmap_pitch = 300,
                   bitmap_buffer = replicate (nat (300 * 1)) 0, bitmap_num_grays = 256,
                   metrics_width = 64 * 300, metrics_height = 64 * 1, horiAdvance = 64,
                   horiBearingX = 0, horiBearingY = 0\<rparr> [65] 0 False
        = Inr \<lparr>char = [65], width = 300, rows = 1, advance = 1, bearingX = 0, bearingY = 0,
                 buf = replicate (nat (300 * 1)) 0, num_grays = 256, inverse_colors = False\<rparr>"
    by (rule from_face_blank) simp_all
  ultimately show ?thesis using t by simp
qed

section \<open>Normalization of the metrics\<close>

text \<open>
  Claim C4, as stated, fails at \<open>shaveX = 0\<close>: for advance 10 and bearingX \<open>-2\<close> the
  code leaves the metrics as they are and removes no column, while the formula of the
  claim gives advance 12, bearingX 0 and two columns to remove. The extraction of the
  letter A with these metrics succeeds and keeps all three columns of the bitmap.
\<close>

theorem discard_left_shave0_counterexample:
  "discard_left 10 (- 2) 0 = (10, - 2, 0)
   \<and> spec_step1 10 (- 2) 0 = (12, 0, 2)
   \<and> from_face \<lparr>bitmap_width = 3, bitmap_rows = 1, bitmap_pitch = 3,
                  bitmap_buffer = [1, 2, 3], bitmap_num_grays = 256,
                  metrics_width = 192, metrics_height = 64, horiAdvance = 640,
                  horiBearingX = - 128, horiBearingY = 64\<rparr> [65] 0 False
       = Inr \<lparr>char = [65], width = 3, rows = 1, advance = 12, bearingX = 0, bearingY = 1,
               buf = [1, 2, 3], num_grays = 256, inverse_colors = False\<rparr>"
  by (simp add: discard_left_def spec_step1_def from_face_def metrics_asserts_def
      modify_bearing_def MODIFY_BEARING_X_def)

text \<open>
  Claim C4, amended. For every extraction with \<open>shaveX > 0\<close>, step 1 computes
  \<open>diff = min(advance, bearingX, shaveX)\<close>, subtracts it from advance and bearingX and
  sets \<open>remaining = shaveX - diff\<close>. For \<open>shaveX = 0\<close> (and any \<open>shaveX \<le> 0\<close>) the step
  is skipped: advance and bearingX are unchanged and \<open>remaining = shaveX\<close>; at
  \<open>shaveX = 0\<close> this is the result of the formula exactly when advance and bearingX are
  not negative.
\<close>

theorem discard_left_step1:
  "(0 < shave \<longrightarrow> discard_left adv bx shave = spec_step1 adv bx shave
                    \<and> discard_left adv bx shave =
                        (adv - min adv (min bx shave), bx - min adv (min bx shave),
                         shave - min adv (min bx shave)))
   \<and> (shave \<le> 0 \<longrightarrow> discard_left adv bx shave = (adv, bx, shave))
   \<and> (shave = 0 \<longrightarrow>
        (discard_left adv bx shave = spec_step1 adv bx shave \<longleftrightarrow> 0 \<le> adv \<and> 0 \<le> bx))"
  by (auto simp: discard_left_def spec_step1_def Let_def min_def)

theorem discard_left_step1_witness:
  "(0::int) < 1 \<and> discard_left 10 3 1 = (9, 2, 0) \<and> spec_step1 10 3 1 = (9, 2, 0)
   \<and> discard_left 10 0 2 = (10, 0, 2)
   \<and> (0::int) \<le> 0 \<and> discard_left 10 (- 2) 0 = (10, - 2, 0)
   \<and> discard_left 10 3 0 = spec_step1 10 3 0"
  using discard_left_step1[of 1 10 3] discard_left_step1[of 2 10 0]
    discard_left_step1[of 0 10 "- 2"] discard_left_step1[of 0 10 3]
  by (simp add: spec_step1_def)

lemma discard_left_negative:
  "discard_left adv bx shave = (adv1, bx1, rl) \<Longrightarrow> bx1 < 0 \<Longrightarrow>
     shave \<le> 0 \<and> adv1 = adv \<and> bx1 = bx \<and> rl = shave"
  by (auto simp: discard_left_def Let_def min_def split: if_splits)

text \<open>
  Claim C5. When bearingX is negative after the shave adjustment, a character of the
  allow-list has the deficit folded into advance (\<open>advance += -bearingX; bearingX = 0\<close>)
  and the extraction goes on: it returns the glyph with these metrics whenever the other
  validations of the extraction hold, and every glyph it returns has them. For a
  character that is not in the allow-list the extraction raises: ValueError at this
  step when the assertions before it hold, and it never returns a glyph.
\<close>

theorem negative_bearingX:
  assumes "discard_left (horiAdvance slot div 64) (horiBearingX slot div 64) shave
             = (adv1, bx1, rl)"
      and "bx1 < 0"
  shows "(c \<in> set MODIFY_BEARING_X \<longrightarrow>
            modify_bearing c adv1 bx1 = Inr (adv1 + - bx1, 0)
            \<and> (metrics_asserts slot c \<and> 0 \<le> adv1 + - bx1 \<and> adv1 + - bx1 \<le> 255
                 \<and> horiBearingY slot div 64 \<le> 255 \<longrightarrow>
                 from_face slot c shave ic =
                   Inr \<lparr>char = c, width = bitmap_width slot, rows = bitmap_rows slot,
                        advance = adv1 + - bx1, bearingX = 0,
                        bearingY = max 0 (horiBearingY slot div 64),
                        buf = bitmap_buffer slot, num_grays = bitmap_num_grays slot,
                        inverse_colors = ic\<rparr>)
            \<and> (\<forall>g. from_face slot c shave ic = Inr g \<longrightarrow>
                     bearingX g = 0 \<and> advance g = adv1 + - bx1))
       \<and> (c \<notin> set MODIFY_BEARING_X \<longrightarrow>
            modify_bearing c adv1 bx1 = Inl ValueError
            \<and> (\<exists>e. from_face slot c shave ic = Inl e)
            \<and> (metrics_asserts slot c \<longrightarrow> from_face slot c shave ic = Inl ValueError))"
proof -
  have rl: "rl \<le> 0" using discard_left_negative[OF assms] by simp
  show ?thesis
  proof (intro conjI impI allI)
    assume c: "c \<in> set MODIFY_BEARING_X"
    show m: "modify_bearing c adv1 bx1 = Inr (adv1 + - bx1, 0)"
      using assms(2) c by (simp add: modify_bearing_def)
    {
      assume "metrics_asserts slot c \<and> 0 \<le> adv1 + - bx1 \<and> adv1 + - bx1 \<le> 255
                 \<and> horiBearingY slot div 64 \<le> 255"
      then show "from_face slot c shave ic =
                   Inr \<lparr>char = c, width = bitmap_width slot, rows = bitmap_rows slot,
                        advance = adv1 + - bx1, bearingX = 0,
                        bearingY = max 0 (horiBearingY slot div 64),
                        buf = bitmap_buffer slot, num_grays = bitmap_num_grays slot,
                        inverse_colors = ic\<rparr>"
        using rl by (simp add: from_face_def assms(1) m Let_def max_def)
    }
    {
      fix g assume "from_face slot c shave ic = Inr g"
      then show "bearingX g = 0" and "advance g = adv1 + - bx1"
        using rl by (auto simp: from_face_def assms(1) m Let_def split: if_splits)
    }
  next
    assume c: "c \<notin> set MODIFY_BEARING_X"
    show m: "modify_bearing c adv1 bx1 = Inl ValueError"
      using assms(2) c by (simp add: modify_bearing_def)
    show "\<exists>e. from_face slot c shave ic = Inl e"
      by (simp add: from_face_def assms(1) m)
    show "from_face slot c shave ic = Inl ValueError" if "metrics_asserts slot c"
      using that by (simp add: from_face_def assms(1) m)
  qed
qed

theorem negative_bearingX_witness:
  "discard_left (640 div 64) (- 128 div 64) 0 = (10, - 2, 0) \<and> (- 2 :: int) < 0
   \<and> [65] \<in> set MODIFY_BEARING_X \<and> [66] \<notin> set MODIFY_BEARING_X
   \<and> from_face \<lparr>bitmap_width = 3, bitmap_rows = 1, bitmap_pitch = 3,
                  bitmap_buffer = [1, 2, 3], bitmap_num_grays = 256,
                  metrics_width = 192, metrics_height = 64, horiAdvance = 640,
                  horiBearingX = - 128, horiBearingY = 64\<rparr> [65] 0 False
       = Inr \<lparr>char = [65], width = 3, rows = 1, advance = 12, bearingX = 0, bearingY = 1,
               buf = [1, 2, 3], num_grays = 256, inverse_colors = False\<rparr>
   \<and> from_face \<lparr>bitmap_width = 3, bitmap_rows = 1, bitmap_pitch = 3,
                  bitmap_buffer = [1, 2, 3], bitmap_num_grays = 256,
                  metrics_width = 192, metrics_height = 64, horiAdvance = 640,
                  horiBearingX = - 128, horiBearingY = 64\<rparr> [66] 0 False
       = Inl ValueError"
proof -
  let ?slot = "\<lparr>bitmap_width = 3, bitmap_rows = 1, bitmap_pitch = 3,
                  bitmap_buffer = [1, 2, 3], bitmap_num_grays = 256,
                  metrics_width = 192, metrics_height = 64, horiAdvance = 640,
                  horiBearingX = - 128, horiBearingY = 64\<rparr>"
  have d: "discard_left (horiAdvance ?slot div 64) (horiBearingX ?slot div 64) 0 = (10, - 2, 0)"
    by (simp add: discard_left_def)
  have n: "(- 2 :: int) < 0" by simp
  have a: "[65] \<in> set MODIFY_BEARING_X" and b: "[66] \<notin> set MODIFY_BEARING_X"
    by (simp_all add: MODIFY_BEARING_X_def)
  have ma: "metrics_asserts ?slot [65]" and mb: "metrics_asserts ?slot [66]"
    by (simp_all add: metrics_asserts_def)
  show ?thesis
    using negative_bearingX[OF d n, of "[65]" False] negative_bearingX[OF d n, of "[66]" False]
      a b ma mb d
    by simp
qed

text \<open>
  Claim C8. When the rasterizer reports a negative bearingY, the extraction does not
  raise for it. Whenever the other validations of the extraction hold (the assertions at
  the head, the ranges of advance and bearingX after the first two steps and, when
  columns are removed, the assertions of that step), it returns the glyph, with bearingY
  clamped to 0. It gives exactly the result it gives for a bearingY of 0, and every glyph
  it returns has bearingY 0, which is within 0..255.
\<close>

theorem negative_bearingY_clamped:
  assumes "horiBearingY slot < 0"
  shows "(horiBearingY slot mod 64 = 0 \<longrightarrow>
            from_face slot c shave ic = from_face (slot\<lparr>horiBearingY := 0\<rparr>) c shave ic)
       \<and> (from_face slot c shave ic = Inr g \<longrightarrow>
            bearingY g = 0 \<and> 0 \<le> bearingY g \<and> bearingY g \<le> 255)
       \<and> (metrics_asserts slot c
            \<and> discard_left (horiAdvance slot div 64) (horiBearingX slot div 64) shave
                 = (adv1, bx1, rl)
            \<and> modify_bearing c adv1 bx1 = Inr (adv2, bx2)
            \<and> 0 \<le> adv2 \<and> adv2 \<le> 255 \<and> 0 \<le> bx2 \<and> bx2 \<le> 255 \<longrightarrow>
            (\<not> (0 < rl \<and> 0 < bitmap_width slot) \<longrightarrow>
               from_face slot c shave ic =
                 Inr \<lparr>char = c, width = bitmap_width slot, rows = bitmap_rows slot,
                      advance = adv2, bearingX = bx2, bearingY = 0,
                      buf = bitmap_buffer slot, num_grays = bitmap_num_grays slot,
                      inverse_colors = ic\<rparr>)
            \<and> (0 < rl \<and> 0 < bitmap_width slot \<and> bx2 = 0 \<and> rl < bitmap_width slot
                 \<and> rl < adv2 \<longrightarrow>
               (\<exists>b. drop_left_columns (bitmap_buffer slot) (bitmap_width slot) rl = Inr b
                    \<and> from_face slot c shave ic =
                        Inr \<lparr>char = c, width = bitmap_width slot - rl,
                             rows = bitmap_rows slot, advance = adv2 - rl, bearingX = bx2,
                             bearingY = 0, buf = b, num_grays = bitmap_num_grays slot,
                             inverse_colors = ic\<rparr>)))"
proof (intro conjI impI)
  have neg: "horiBearingY slot div 64 < 0" using assms by simp
  {
    assume m: "horiBearingY slot mod 64 = 0"
    then have "metrics_asserts (slot\<lparr>horiBearingY := 0\<rparr>) c = metrics_asserts slot c"
      by (simp add: metrics_asserts_def)
    then show "from_face slot c shave ic = from_face (slot\<lparr>horiBearingY := 0\<rparr>) c shave ic"
      using neg by (simp add: from_face_def Let_def split: prod.splits sum.splits)
  }
  {
    assume "from_face slot c shave ic = Inr g"
    then have "bearingY g = 0"
      using neg
      by (auto simp: from_face_def Let_def split: if_splits prod.splits sum.splits)
    then show "bearingY g = 0" and "0 \<le> bearingY g" and "bearingY g \<le> 255" by simp_all
  }
  {
    assume v: "metrics_asserts slot c
            \<and> discard_left (horiAdvance slot div 64) (horiBearingX slot div 64) shave
                 = (adv1, bx1, rl)
            \<and> modify_bearing c adv1 bx1 = Inr (adv2, bx2)
            \<and> 0 \<le> adv2 \<and> adv2 \<le> 255 \<and> 0 \<le> bx2 \<and> bx2 \<le> 255"
    {
      assume "\<not> (0 < rl \<and> 0 < bitmap_width slot)"
      then show "from_face slot c shave ic =
                 Inr \<lparr>char = c, width = bitmap_width slot, rows = bitmap_rows slot,
                      advance = adv2, bearingX = bx2, bearingY = 0,
                      buf = bitmap_buffer slot, num_grays = bitmap_num_grays slot,
                      inverse_colors = ic\<rparr>"
        using v neg by (auto simp: from_face_def Let_def)
    }
    {
      assume r: "0 < rl \<and> 0 < bitmap_width slot \<and> bx2 = 0 \<and> rl < bitmap_width slot
                 \<and> rl < adv2"
      then obtain b where
        b: "drop_left_columns (bitmap_buffer slot) (bitmap_width slot) rl = Inr b"
        by (auto simp: drop_left_columns_def)
      have "from_face slot c shave ic =
                        Inr \<lparr>char = c, width = bitmap_width slot - rl,
                             rows = bitmap_rows slot, advance = adv2 - rl, bearingX = bx2,
                             bearingY = 0, buf = b, num_grays = bitmap_num_grays slot,
                             inverse_colors = ic\<rparr>"
        using v neg r b by (auto simp: from_face_def Let_def)
      then show "\<exists>b. drop_left_columns (bitmap_buffer slot) (bitmap_width slot) rl = Inr b
                    \<and> from_face slot c shave ic =
                        Inr \<lparr>char = c, width = bitmap_width slot - rl,
                             rows = bitmap_rows slot, advance = adv2 - rl, bearingX = bx2,
                             bearingY = 0, buf = b, num_grays = bitmap_num_grays slot,
                             inverse_colors = ic\<rparr>"
        using b by blast
    }
  }
qed

theorem negative_bearingY_clamped_witness:
  "horiBearingY \<lparr>bitmap_width = 3, bitmap_rows = 1, bitmap_pitch = 3,
                  bitmap_buffer = [1, 2, 3], bitmap_num_grays = 256,
                  metrics_width = 192, metrics_height = 64, horiAdvance = 640,
                  horiBearingX = 64, horiBearingY = - 128\<rparr> < 0
   \<and> from_face \<lparr>bitmap_width = 3, bitmap_rows = 1, bitmap_pitch = 3,
                  bitmap_buffer = [1, 2, 3], bitmap_num_grays = 256,
                  metrics_width = 192, metrics_height = 64, horiAdvance = 640,
                  horiBearingX = 64, horiBearingY = - 128\<rparr> [95] 0 False
       = Inr \<lparr>char = [95], width = 3, rows = 1, advance = 10, bearingX = 1, bearingY = 0,
               buf = [1, 2, 3], num_grays = 256, inverse_colors = False\<rparr>
   \<and> from_face \<lparr>bitmap_width = 3, bitmap_rows = 1, bitmap_pitch = 3,
                  bitmap_buffer = [1, 2, 3], bitmap_num_grays = 256,
                  metrics_width = 192, metrics_height = 64, horiAdvance = 640,
                  horiBearingX = 0, horiBearingY = - 128\<rparr> [95] 1 False
       = Inr \<lparr>char = [95], width = 2, rows = 1, advance = 9, bearingX = 0, bearingY = 0,
               buf = [2, 3], num_grays = 256, inverse_colors = False\<rparr>"
proof -
  let ?slot = "\<lparr>bitmap_width = 3, bitmap_rows = 1, bitmap_pitch = 3,
                  bitmap_buffer = [1, 2, 3], bitmap_num_grays = 256,
                  metrics_width = 192, metrics_height = 64, horiAdvance = 640,
                  horiBearingX = 64, horiBearingY = - 128\<rparr>"
  let ?slotz = "\<lparr>bitmap_width = 3, bitmap_rows = 1, bitmap_pitch = 3,
                  bitmap_buffer = [1, 2, 3], bitmap_num_grays = 256,
                  metrics_width = 192, metrics_height = 64, horiAdvance = 640,
                  horiBearingX = 0, horiBearingY = - 128\<rparr>"
  have n: "horiBearingY ?slot < 0" and n0: "horiBearingY ?slotz < 0" by simp_all
  have m: "metrics_asserts ?slot [95]" and m0: "metrics_asserts ?slotz [95]"
    by (simp_all add: metrics_asserts_def)
  have d: "discard_left (horiAdvance ?slot div 64) (horiBearingX ?slot div 64) 0 = (10, 1, 0)"
    and d0: "discard_left (horiAdvance ?slotz div 64) (horiBearingX ?slotz div 64) 1 = (10, 0, 1)"
    by (simp_all add: discard_left_def Let_def)
  have b: "modify_bearing [95] 10 1 = Inr (10, 1)" and b0: "modify_bearing [95] 10 0 = Inr (10, 0)"
    by (simp_all add: modify_bearing_def)
  have c: "drop_left_columns [1, 2, 3] 3 1 = Inr [2, 3]"
    by (simp add: drop_left_columns_def upt_rec)
  have "from_face ?slot [95] 0 False
       = Inr \<lparr>char = [95], width = 3, rows = 1, advance = 10, bearingX = 1, bearingY = 0,
               buf = [1, 2, 3], num_grays = 256, inverse_colors = False\<rparr>"
    using negative_bearingY_clamped[OF n, where c = "[95]" and shave = 0 and ic = False
        and ?adv1.0 = 10 and ?bx1.0 = 1 and rl = 0 and ?adv2.0 = 10 and ?bx2.0 = 1,
        THEN conjunct2, THEN conjunct2] m d b by simp
  moreover have "from_face ?slotz [95] 1 False
       = Inr \<lparr>char = [95], width = 2, rows = 1, advance = 9, bearingX = 0, bearingY = 0,
               buf = [2, 3], num_grays = 256, inverse_colors = False\<rparr>"
    using negative_bearingY_clamped[OF n0, where c = "[95]" and shave = 1 and ic = False
        and ?adv1.0 = 10 and ?bx1.0 = 0 and rl = 1 and ?adv2.0 = 10 and ?bx2.0 = 0,
        THEN conjunct2, THEN conjunct2] m0 d0 b0 c by simp
  ultimately show ?thesis by simp
qed

section \<open>Vertical extent of the font\<close>

lemma fold_update_extent:
  "fold update_extent gs (a, b) =
     (Min (insert a ((\<lambda>g. bearingY g - rows g) ` set gs)), Max (insert b (bearingY ` set gs)))"
proof (induction gs arbitrary: a b)
  case Nil
  then show ?case by simp
next
  case (Cons g gs)
  have u: "update_extent g (a, b) = (min a (bearingY g - rows g), max b (bearingY g))"
    by (simp add: update_extent_def Let_def)
  have mn: "Min (insert (min a (bearingY g - rows g)) ((\<lambda>g. bearingY g - rows g) ` set gs)) =
       Min (insert a ((\<lambda>g. bearingY g - rows g) ` set (g # gs)))"
  proof (cases "set gs = {}")
    case True
    then show ?thesis by (simp add: min.commute)
  next
    case False
    then show ?thesis by (simp add: min.assoc min.left_commute)
  qed
  have mx: "Max (insert (max b (bearingY g)) (bearingY ` set gs)) =
       Max (insert b (bearingY ` set (g # gs)))"
  proof (cases "set gs = {}")
    case True
    then show ?thesis by (simp add: max.commute)
  next
    case False
    then show ?thesis by (simp add: max.assoc max.left_commute)
  qed
  show ?case
    unfolding fold_simps u Cons.IH mn mx ..
qed

lemma extent_loop_fold:
  "extent_loop fp cs acc = Inr r \<Longrightarrow>
     \<exists>gs. traverse (\<lambda>i. from_face (face fp [i]) [i] (shaveX fp) False)
             (filter (\<lambda>i. \<not> (islower i \<and> \<not> gen_normal fp)) cs) = Inr gs
          \<and> r = fold update_extent gs acc"
proof (induction cs arbitrary: acc)
  case Nil
  then show ?case by simp
next
  case (Cons i cs)
  show ?case
  proof (cases "islower i \<and> \<not> gen_normal fp")
    case True
    then show ?thesis using Cons by simp
  next
    case False
    then obtain g where g: "from_face (face fp [i]) [i] (shaveX fp) False = Inr g"
      and r: "extent_loop fp cs (update_extent g acc) = Inr r"
      using Cons.prems by (auto split: sum.splits)
    from Cons.IH[OF r] obtain gs where
      "traverse (\<lambda>i. from_face (face fp [i]) [i] (shaveX fp) False)
             (filter (\<lambda>i. \<not> (islower i \<and> \<not> gen_normal fp)) cs) = Inr gs"
      "r = fold update_extent gs (update_extent g acc)" by blast
    then show ?thesis using False g by (intro exI[of _ "g # gs"]) simp
  qed
qed

lemma write_char_definitions_fold:
  "write_char_definitions fp cs acc = Inr r \<Longrightarrow>
     \<exists>gs. traverse (\<lambda>i. from_face (face fp [i]) [i] (shaveX fp) False)
             (filter (\<lambda>i. \<not> (islower i \<and> \<not> gen_normal fp)) cs) = Inr gs
          \<and> r = fold update_extent gs acc"
proof (induction cs arbitrary: acc)
  case Nil
  then show ?case by simp
next
  case (Cons i cs)
  show ?case
  proof (cases "islower i \<and> \<not> gen_normal fp")
    case True
    then show ?thesis using Cons by simp
  next
    case False
    then obtain g where g: "from_face (face fp [i]) [i] (shaveX fp) False = Inr g"
      and r: "write_char_definitions fp cs (update_extent g acc) = Inr r"
      using Cons.prems by (auto split: sum.splits)
    from Cons.IH[OF r] obtain gs where
      "traverse (\<lambda>i. from_face (face fp [i]) [i] (shaveX fp) False)
             (filter (\<lambda>i. \<not> (islower i \<and> \<not> gen_normal fp)) cs) = Inr gs"
      "r = fold update_extent gs (update_extent g acc)" by blast
    then show ?thesis using False g by (intro exI[of _ "g # gs"]) simp
  qed
qed

lemma write_rust_file_Inr:
  assumes "write_rust_file fp = Inr d"
  shows "\<exists>ymin ymax. extent_loop fp [MIN_GLYPH..<MAX_GLYPH + 1] (0, 0) = Inr (ymin, ymax)
           \<and> (gen_normal fp \<longrightarrow> (\<exists>fi. font_info d = Some fi \<and> baseline fi = - ymin
                                          \<and> max_height fi = ymax - ymin))
           \<and> (\<not> gen_normal fp \<longrightarrow> font_info d = None)
           \<and> (gen_upper fp \<longrightarrow> (\<exists>fi. font_info_upper d = Some fi \<and> baseline fi = - ymin
                                          \<and> max_height fi = ymax - ymin))
           \<and> (\<not> gen_upper fp \<longrightarrow> font_info_upper d = None)"
  using assms unfolding write_rust_file_def
  by (auto split: sum.splits prod.splits if_splits option.splits)


lemma write_c_file_content_Inr:
  assumes "write_c_file_content fp acc0 = Inr (ci, cu, acc)"
  shows "write_char_definitions fp [MIN_GLYPH..<MAX_GLYPH + 1] acc0 = Inr acc
           \<and> (gen_normal fp \<longrightarrow> (\<exists>s. ci = Some s \<and> c_baseline s = - fst acc
                                          \<and> c_max_height s = snd acc - fst acc))
           \<and> (gen_upper fp \<longrightarrow> (\<exists>s. cu = Some s \<and> c_baseline s = - fst acc
                                          \<and> c_max_height s = snd acc - fst acc))"
  using assms unfolding write_c_file_content_def write_font_info_structure_def
  by (auto split: sum.splits prod.splits if_splits)



end
